theory Spec2Isabelle
  imports Complex_Main "HOL-Library.Sublist"
begin

section \<open>Numbers, strings and paths\<close>

text \<open>
  \<^verbatim>\<open>parseFloat(x.toFixed(2))\<close>. \<^verbatim>\<open>toFixed\<close> works on the exact value of \<open>x\<close>: it takes the sign
  off, picks the integer \<open>n\<close> with \<open>n / 100\<close> nearest to \<open>|x|\<close> (the larger one on a tie) and
  prints \<open>n / 100\<close> in decimal. Every JavaScript number is a rational, so the model is over
  \<open>rat\<close>; the value returned is the decimal that is printed into the report (\<^verbatim>\<open>parseFloat\<close>
  gives the double nearest to it, which \<^verbatim>\<open>JSON.stringify\<close> prints as the same decimal).

  The argument is exact where the script rounds a memory figure: a count of bytes divided by
  \<open>1024 * 1024\<close>, and a difference of two such numbers, are doubles with no rounding. It is
  an idealisation where the script rounds a duration: \<^verbatim>\<open>(end - start) / 1000\<close> is rounded to
  a double before \<^verbatim>\<open>toFixed\<close> sees it, and \<open>toFixed2\<close> is applied here to the exact quotient.
  The two differ when the exact quotient lies on a tie: for 15 ms the double nearest to
  0.015 lies below it, so the script prints 0.01 and \<open>toFixed2 (15 / 1000)\<close> is 0.02.
  A duration of the model is therefore within one hundredth of the one the script prints,
  and the theorems below use no more of a duration than its sign.
\<close>

definition toFixed2 :: "rat \<Rightarrow> rat" where
  "toFixed2 x =
     (if x < 0 then - (of_int \<lfloor>(- x) * 100 + 1 / 2\<rfloor> / 100)
      else of_int \<lfloor>x * 100 + 1 / 2\<rfloor> / 100)"

text \<open>A number inside a template literal: \<^verbatim>\<open>`file-${j}.txt`\<close> prints \<open>j\<close> in decimal.\<close>

definition digit_char :: "nat \<Rightarrow> char" where
  "digit_char d = char_of (48 + d)"

fun decimal :: "nat \<Rightarrow> string" where
  "decimal n = (if n < 10 then [digit_char n] else decimal (n div 10) @ [digit_char (n mod 10)])"

declare decimal.simps [simp del]

text \<open>\<^verbatim>\<open>args.join(' ')\<close>.\<close>

fun join_space :: "string list \<Rightarrow> string" where
  "join_space [] = []"
| "join_space [a] = a"
| "join_space (a # b # bs) = a @ '' '' @ join_space (b # bs)"

text \<open>
  \<^verbatim>\<open>path.join(a, b)\<close> on the arguments the script passes (no empty segment, no \<^verbatim>\<open>..\<close>, no
  trailing separator): the two segments with a separator between.
\<close>

definition path_join :: "string \<Rightarrow> string \<Rightarrow> string" where
  "path_join a b = a @ ''/'' @ b"

text \<open>\<^verbatim>\<open>haystack.includes(needle)\<close>: the needle occurs as a contiguous run of the haystack.\<close>

definition string_includes :: "string \<Rightarrow> string \<Rightarrow> bool" where
  "string_includes haystack needle = sublist needle haystack"

section \<open>The data model\<close>

text \<open>
  A property of a JavaScript object is there or not; \<^verbatim>\<open>exitCode\<close> can moreover be there
  and hold \<^verbatim>\<open>null\<close> (\<open>Present None\<close>).
\<close>

datatype 'a field = Absent | Present 'a

text \<open>
  The object every task returns. \<open>subTasks\<close> keeps the insertion order of its keys; each
  sub-task object has the one property \<^verbatim>\<open>duration_s\<close>, which is the number stored here.
  \<open>output_text\<close> is the property \<^verbatim>\<open>output\<close> of the source.
\<close>

record task_result =
  command :: string
  amountOfProcessedItems :: "nat field"
  duration_ms :: rat
  duration_s :: rat
  startMemory_MB :: rat
  endMemory_MB :: rat
  memoryUsage_MB :: rat
  startCpu_percent :: rat
  endCpu_percent :: rat
  exitCode :: "int option field"
  output_text :: "string field"
  subTasks :: "(string \<times> rat) list field"

record system_info =
  hostname :: string
  platform :: string
  arch :: string
  cpuModel :: string
  cpuCores :: nat
  totalMemory_MB :: rat

text \<open>
  The \<^verbatim>\<open>results\<close> object of one run. \<open>benchmarks\<close> is a JavaScript object used as an
  insertion-ordered mapping; the two time stamps are kept as the milliseconds the ISO
  strings are printed from.
\<close>

record run_report =
  scriptVersion :: string
  systemInfo :: system_info
  benchmarks :: "(string \<times> task_result) list"
  runNumber :: nat
  totalRuns :: nat
  runStartTimeUTC :: nat
  runEndTimeUTC :: nat

text \<open>\<^verbatim>\<open>obj[key] = value\<close>: an existing key keeps its place, a new key goes last.\<close>

fun assign :: "(string \<times> 'v) list \<Rightarrow> string \<Rightarrow> 'v \<Rightarrow> (string \<times> 'v) list" where
  "assign [] k v = [(k, v)]"
| "assign ((k', v') # kvs) k v = (if k' = k then (k, v) # kvs else (k', v') # assign kvs k v)"

section \<open>The host: file system, clock, child processes\<close>

datatype error = SpawnError string | FsError string | SharpError string | TypeError string

text \<open>
  A promise, once the event loop has run dry: fulfilled, rejected, or never settled (a
  child process that never closes leaves \<^verbatim>\<open>measurePerformance\<close> pending for ever).
\<close>

datatype 'a outcome = Fulfilled 'a | Rejected error | Pending

datatype signal = SIGTERM

text \<open>
  What a spawned child does, as the events its handle emits in order: chunks on its two
  streams, \<^verbatim>\<open>'close'\<close> with the exit code (\<^verbatim>\<open>null\<close> when a signal ended it), \<^verbatim>\<open>'error'\<close> when it
  could not be spawned.
\<close>

datatype child_event = Stdout string | Stderr string | Close "int option" | Error string

datatype node = Directory | TextFile string | ImageFile | ReportFile run_report

type_synonym tree = "string \<Rightarrow> node option"

text \<open>
  The effects of the script on its host, in the order they happen. \<open>Begin k\<close> is a ghost
  event: \<^verbatim>\<open>main\<close> is about to call the task function of the benchmark key \<open>k\<close>. Console
  output is not modelled but for the line that reports the primes found.
\<close>

datatype event =
    Spawn string "string list"
  | Kill signal
  | Mkdir string
  | Rm string
  | WriteFiles "string list" node
  | SharpCreate "string list"
  | SharpResize "(string \<times> string) list" nat
  | Confirm bool
  | Found nat nat
  | Begin string

text \<open>
  Everything the script reads from its host. A reading depends on when it is taken: the
  host's answers are indexed by \<open>tick\<close>, the number of interactions so far. Whether a file
  operation or an image transform fails is the host's decision too.
\<close>

record host =
  elapse :: "nat \<Rightarrow> nat"
  os_totalmem :: "nat \<Rightarrow> nat"
  os_freemem :: "nat \<Rightarrow> nat"
  cpu_usage :: "nat \<Rightarrow> rat"
  child :: "nat \<Rightarrow> child_event list"
  child_writes :: "nat \<Rightarrow> tree \<Rightarrow> tree"
  fs_fault :: "nat \<Rightarrow> string \<Rightarrow> bool"
  sharp_fault :: "nat \<Rightarrow> string \<Rightarrow> bool"
  confirmInstall :: "nat \<Rightarrow> bool"
  date_now :: "nat \<Rightarrow> nat"
  os_hostname :: string
  os_platform :: string
  os_arch :: string
  os_cpus :: "string list"

text \<open>
  The state the script changes: the file tree, the monotonic clock of
  \<^verbatim>\<open>performance.now()\<close> (in microseconds), the number of interactions, and the trace.
\<close>

record world =
  fs :: tree
  clock :: nat
  tick :: nat
  trace :: "event list"

type_synonym 'a io = "world \<Rightarrow> 'a outcome \<times> world"

text \<open>\<^verbatim>\<open>await\<close>, and plain sequencing: a rejection or a promise that never settles ends the caller.\<close>

definition andThen :: "'a io \<Rightarrow> ('a \<Rightarrow> 'b io) \<Rightarrow> 'b io" where
  "andThen m f w =
     (case m w of
        (Fulfilled x, w') \<Rightarrow> f x w'
      | (Rejected e, w') \<Rightarrow> (Rejected e, w')
      | (Pending, w') \<Rightarrow> (Pending, w'))"

definition resolve :: "'a \<Rightarrow> 'a io" where
  "resolve x w = (Fulfilled x, w)"

definition reject :: "error \<Rightarrow> 'a io" where
  "reject e w = (Rejected e, w)"

text \<open>One interaction with the host: time passes, and the next reading is a new one.\<close>

definition interact :: "host \<Rightarrow> world \<Rightarrow> world" where
  "interact h w = w\<lparr>clock := clock w + elapse h (tick w), tick := Suc (tick w)\<rparr>"

definition emit :: "event \<Rightarrow> world \<Rightarrow> world" where
  "emit e w = w\<lparr>trace := trace w @ [e]\<rparr>"

text \<open>\<^verbatim>\<open>performance.now()\<close>, in milliseconds.\<close>

definition performance_now :: "host \<Rightarrow> rat io" where
  "performance_now h w = (let w' = interact h w in (Fulfilled (of_nat (clock w') / 1000), w'))"

definition Date_now :: "host \<Rightarrow> nat io" where
  "Date_now h w = (Fulfilled (date_now h (tick w)), interact h w)"

subsection \<open>The resource sampler\<close>

record memory_usage =
  total :: rat
  free :: rat
  used :: rat

text \<open>
  \<^verbatim>\<open>getMemoryUsage\<close>. \<^verbatim>\<open>usedPercent\<close> is left out: nothing reads it.
\<close>

definition getMemoryUsage :: "host \<Rightarrow> memory_usage io" where
  "getMemoryUsage h w =
     (let totalMem = of_nat (os_totalmem h (tick w)) / (1024 * 1024);
          freeMem = of_nat (os_freemem h (tick w)) / (1024 * 1024);
          usedMem = totalMem - freeMem
      in (Fulfilled \<lparr>total = totalMem, free = freeMem, used = usedMem\<rparr>, interact h w))"

text \<open>
  \<^verbatim>\<open>getCpuUsage\<close> is a quotient of tick counters in floating point; its value is taken from
  the host as it is.
\<close>

definition getCpuUsage :: "host \<Rightarrow> rat io" where
  "getCpuUsage h w = (Fulfilled (cpu_usage h (tick w)), interact h w)"

subsection \<open>The file system\<close>

text \<open>\<open>q\<close> is \<open>p\<close> or lies below it.\<close>

definition is_within :: "string \<Rightarrow> string \<Rightarrow> bool" where
  "is_within p q \<longleftrightarrow> q = p \<or> prefix (p @ ''/'') q"

text \<open>The directories on the way to a path, the path last: \<open>a\<close>, \<open>a/b\<close>, \<open>a/b/c\<close>.\<close>

fun dirs :: "string \<Rightarrow> string \<Rightarrow> string list" where
  "dirs acc [] = [acc]"
| "dirs acc (c # cs) =
     (if c = CHR ''/'' then acc # dirs (acc @ [c]) cs else dirs (acc @ [c]) cs)"

definition make_dir :: "string \<Rightarrow> tree \<Rightarrow> tree" where
  "make_dir d t = (if t d = None then t(d \<mapsto> Directory) else t)"

definition remove_tree :: "string \<Rightarrow> tree \<Rightarrow> tree" where
  "remove_tree p t = (\<lambda>q. if is_within p q then None else t q)"

definition write_all :: "string list \<Rightarrow> node \<Rightarrow> tree \<Rightarrow> tree" where
  "write_all ps content t = (\<lambda>q. if q \<in> set ps then Some content else t q)"

text \<open>
  The result of \<^verbatim>\<open>Promise.all\<close> over operations that were all started: the operations
  that do not fail take effect, and one failure rejects the whole. \<^verbatim>\<open>Promise.all\<close> rejects
  with the failure that comes first in time; the host of the model gives no order in time
  to the operations of one batch, and the failure taken here is the first in the order of
  the array. The theorems below use only that the whole is rejected, not with which error.
\<close>

definition all_settled :: "(string \<Rightarrow> error) \<Rightarrow> string list \<Rightarrow> unit outcome" where
  "all_settled err failed = (case failed of [] \<Rightarrow> Fulfilled () | p # _ \<Rightarrow> Rejected (err p))"

text \<open>\<^verbatim>\<open>fs.access(p)\<close> inside \<^verbatim>\<open>directoryExists\<close>: any failure is the answer \<^verbatim>\<open>false\<close>.\<close>

definition directoryExists :: "host \<Rightarrow> string \<Rightarrow> bool io" where
  "directoryExists h dirPath w =
     (Fulfilled (fs w dirPath \<noteq> None \<and> \<not> fs_fault h (tick w) dirPath), interact h w)"

text \<open>\<^verbatim>\<open>fs.mkdir(p, { recursive: true })\<close>.\<close>

definition fs_mkdir :: "host \<Rightarrow> string \<Rightarrow> unit io" where
  "fs_mkdir h p w =
     (let w1 = interact h (emit (Mkdir p) w) in
      if fs_fault h (tick w) p then (Rejected (FsError p), w1)
      else (Fulfilled (), w1\<lparr>fs := fold make_dir (dirs [] p) (fs w1)\<rparr>))"

text \<open>\<^verbatim>\<open>fs.rm(p, { recursive: true, force: true })\<close>.\<close>

definition fs_rm :: "host \<Rightarrow> string \<Rightarrow> unit io" where
  "fs_rm h p w =
     (let w1 = interact h (emit (Rm p) w) in
      if fs_fault h (tick w) p then (Rejected (FsError p), w1)
      else (Fulfilled (), w1\<lparr>fs := remove_tree p (fs w1)\<rparr>))"

text \<open>
  \<^verbatim>\<open>await Promise.all(paths.map(p => fs.writeFile(p, content)))\<close>; with one path it is
  \<^verbatim>\<open>await fs.writeFile(p, content)\<close>.
\<close>

definition fs_writeFiles :: "host \<Rightarrow> string list \<Rightarrow> node \<Rightarrow> unit io" where
  "fs_writeFiles h ps content w =
     (let w1 = interact h (emit (WriteFiles ps content) w);
          ok = filter (\<lambda>p. \<not> fs_fault h (tick w) p) ps;
          failed = filter (fs_fault h (tick w)) ps
      in (all_settled FsError failed, w1\<lparr>fs := write_all ok content (fs w1)\<rparr>))"

subsection \<open>The image library\<close>

text \<open>
  \<^verbatim>\<open>sharp({ create: ... }).jpeg().toFile(p)\<close> for every \<open>p\<close>, all started, then awaited
  together.
\<close>

definition sharp_create_all :: "host \<Rightarrow> string list \<Rightarrow> unit io" where
  "sharp_create_all h ps w =
     (let w1 = interact h (emit (SharpCreate ps) w);
          ok = filter (\<lambda>p. \<not> sharp_fault h (tick w) p) ps;
          failed = filter (sharp_fault h (tick w)) ps
      in (all_settled SharpError failed, w1\<lparr>fs := write_all ok ImageFile (fs w1)\<rparr>))"

text \<open>
  \<^verbatim>\<open>sharp(src).resize(width).toFile(dst)\<close> for every pair, all started, then awaited
  together.
\<close>

definition sharp_resize_all :: "host \<Rightarrow> (string \<times> string) list \<Rightarrow> nat \<Rightarrow> unit io" where
  "sharp_resize_all h pairs width w =
     (let w1 = interact h (emit (SharpResize pairs width) w);
          ok = filter (\<lambda>p. \<not> sharp_fault h (tick w) p) (map snd pairs);
          failed = filter (sharp_fault h (tick w)) (map snd pairs)
      in (all_settled SharpError failed, w1\<lparr>fs := write_all ok ImageFile (fs w1)\<rparr>))"

section \<open>The heavy computation: trial division with a 6k\<plusminus>1 wheel\<close>

text \<open>
  \<^verbatim>\<open>isPrime\<close> and \<^verbatim>\<open>findPrimes\<close> of \<^verbatim>\<open>runHeavyScript\<close> (benchmark.js, lines 336 to 354).
  The only caller passes the integers \<open>2 .. 1000000\<close>; the model is over \<open>nat\<close>, on which
  JavaScript's \<^verbatim>\<open>%\<close>, \<^verbatim>\<open><=\<close> and \<^verbatim>\<open>*\<close> are \<open>mod\<close>, \<open>\<le>\<close> and \<open>*\<close> (numbers below \<open>2^53\<close>
  are exact).

  The \<^verbatim>\<open>for (let i = 5; i * i <= num; i = i + 6)\<close> loop is \<open>isPrime_loop\<close>; it terminates
  because \<open>i \<le> i * i \<le> num\<close> whenever the body runs.
\<close>

function isPrime_loop :: "nat \<Rightarrow> nat \<Rightarrow> bool" where
  "isPrime_loop i num =
     (if i * i \<le> num
      then (if num mod i = 0 \<or> num mod (i + 2) = 0 then False
            else isPrime_loop (i + 6) num)
      else True)"
  by pat_completeness auto
termination
proof (relation "measure (\<lambda>(i, num). num + 1 - i)")
  show "wf (measure (\<lambda>(i, num). num + 1 - i))" by simp
next
  fix i num :: nat
  assume le: "i * i \<le> num"
  have "i \<le> i * i" by (cases i) simp_all
  with le have "i \<le> num" by linarith
  then show "((i + 6, num), (i, num)) \<in> measure (\<lambda>(i, num). num + 1 - i)"
    by simp
qed

declare isPrime_loop.simps [simp del]

definition isPrime :: "nat \<Rightarrow> bool" where
  "isPrime num =
     (if num \<le> 1 then False
      else if num \<le> 3 then True
      else if num mod 2 = 0 \<or> num mod 3 = 0 then False
      else isPrime_loop 5 num)"

text \<open>
  \<^verbatim>\<open>for (let i = 2; i <= max; i++) if (isPrime(i)) primes.push(i)\<close>, with the array as an
  accumulator.
\<close>

function findPrimes_loop :: "nat \<Rightarrow> nat \<Rightarrow> nat list \<Rightarrow> nat list" where
  "findPrimes_loop i mx primes =
     (if i \<le> mx
      then findPrimes_loop (i + 1) mx (if isPrime i then primes @ [i] else primes)
      else primes)"
  by pat_completeness auto
termination
  by (relation "measure (\<lambda>(i, mx, primes). mx + 1 - i)") auto

declare findPrimes_loop.simps [simp del]

definition findPrimes :: "nat \<Rightarrow> nat list" where
  "findPrimes mx = findPrimes_loop 2 mx []"

text \<open>What the claim calls prime: greater than one, with no divisor but one and itself.\<close>

definition is_prime_number :: "nat \<Rightarrow> bool" where
  "is_prime_number n \<longleftrightarrow> 1 < n \<and> (\<forall>d. d dvd n \<longrightarrow> d = 1 \<or> d = n)"

section \<open>The process runner\<close>

text \<open>
  The two variables \<^verbatim>\<open>output\<close> and \<^verbatim>\<open>killed\<close> that \<^verbatim>\<open>handleOutput\<close> closes over
  (\<open>output\<close> is a keyword of Isabelle, hence \<open>output_buffer\<close>).
\<close>

record closure =
  output_buffer :: string
  killed :: bool

definition closure0 :: closure where
  "closure0 = \<lparr>output_buffer = [], killed = False\<rparr>"

text \<open>
  \<^verbatim>\<open>handleOutput\<close>, the listener of both streams. \<^verbatim>\<open>killSignal && ...\<close> is false for
  \<^verbatim>\<open>null\<close> (\<open>None\<close>) and for the empty string.
\<close>

definition handleOutput :: "string option \<Rightarrow> string \<Rightarrow> closure \<times> world \<Rightarrow> closure \<times> world" where
  "handleOutput killSignal dataStr cw =
     (case cw of (c, w) \<Rightarrow>
        let c1 = c\<lparr>output_buffer := output_buffer c @ dataStr\<rparr> in
        case killSignal of
          None \<Rightarrow> (c1, w)
        | Some s \<Rightarrow>
            if s \<noteq> [] \<and> \<not> killed c1 \<and> string_includes (output_buffer c1) s
            then (c1\<lparr>killed := True\<rparr>, emit (Kill SIGTERM) w)
            else (c1, w))"

text \<open>The listener called for chunk after chunk.\<close>

fun feed :: "string option \<Rightarrow> string list \<Rightarrow> closure \<times> world \<Rightarrow> closure \<times> world" where
  "feed killSignal [] cw = cw"
| "feed killSignal (d # ds) cw = feed killSignal ds (handleOutput killSignal d cw)"

text \<open>The chunks a child writes on its two streams before it closes or fails.\<close>

fun chunks_of :: "child_event list \<Rightarrow> string list" where
  "chunks_of [] = []"
| "chunks_of (Stdout d # es) = d # chunks_of es"
| "chunks_of (Stderr d # es) = d # chunks_of es"
| "chunks_of (Close code # es) = []"
| "chunks_of (Error err # es) = []"

text \<open>The listener of \<^verbatim>\<open>'close'\<close>.\<close>

definition onClose ::
  "host \<Rightarrow> string \<Rightarrow> string list \<Rightarrow> memory_usage \<Rightarrow> rat \<Rightarrow> rat \<Rightarrow> closure \<Rightarrow> int option
     \<Rightarrow> task_result io" where
  "onClose h cmd args startMem startCpu startTime c code =
     andThen (performance_now h) (\<lambda>endTime.
     andThen (getMemoryUsage h) (\<lambda>endMem.
     andThen (getCpuUsage h) (\<lambda>endCpu.
     resolve
       \<lparr>command = cmd @ '' '' @ join_space args,
        amountOfProcessedItems = Absent,
        duration_ms = endTime - startTime,
        duration_s = toFixed2 ((endTime - startTime) / 1000),
        startMemory_MB = used startMem,
        endMemory_MB = used endMem,
        memoryUsage_MB = toFixed2 (used endMem - used startMem),
        startCpu_percent = toFixed2 startCpu,
        endCpu_percent = toFixed2 endCpu,
        exitCode = Present code,
        output_text = Present (output_buffer c),
        subTasks = Absent\<rparr>)))"

text \<open>
  The events of the child, delivered to the listeners in order until the promise settles:
  \<^verbatim>\<open>'close'\<close> resolves it, \<^verbatim>\<open>'error'\<close> rejects it with the error of the operating system. A
  child that emits neither leaves it pending.
\<close>

fun deliver ::
  "host \<Rightarrow> string option \<Rightarrow> (closure \<Rightarrow> int option \<Rightarrow> task_result io) \<Rightarrow> child_event list
     \<Rightarrow> closure \<Rightarrow> task_result io" where
  "deliver h killSignal onclose [] c w = (Pending, w)"
| "deliver h killSignal onclose (Stdout d # es) c w =
     (case handleOutput killSignal d (c, interact h w) of
        (c', w') \<Rightarrow> deliver h killSignal onclose es c' w')"
| "deliver h killSignal onclose (Stderr d # es) c w =
     (case handleOutput killSignal d (c, interact h w) of
        (c', w') \<Rightarrow> deliver h killSignal onclose es c' w')"
| "deliver h killSignal onclose (Close code # es) c w = onclose c code (interact h w)"
| "deliver h killSignal onclose (Error err # es) c w = (Rejected (SpawnError err), interact h w)"

text \<open>
  \<^verbatim>\<open>spawn(command, args, { shell: true, ...options })\<close>. The harness touches no file while
  it waits for the child, so what the child writes (\<^verbatim>\<open>npm install\<close> fills
  \<^verbatim>\<open>node_modules\<close>) is applied at once.
\<close>

definition spawn :: "host \<Rightarrow> string \<Rightarrow> string list \<Rightarrow> child_event list io" where
  "spawn h cmd args w =
     (let w1 = interact h (emit (Spawn cmd args) w)
      in (Fulfilled (child h (tick w)), w1\<lparr>fs := child_writes h (tick w) (fs w1)\<rparr>))"

definition measurePerformance ::
  "host \<Rightarrow> string \<Rightarrow> string list \<Rightarrow> string option \<Rightarrow> task_result io" where
  "measurePerformance h cmd args killSignal =
     andThen (getMemoryUsage h) (\<lambda>startMem.
     andThen (getCpuUsage h) (\<lambda>startCpu.
     andThen (performance_now h) (\<lambda>startTime.
     andThen (spawn h cmd args) (\<lambda>events.
     deliver h killSignal (onClose h cmd args startMem startCpu startTime) events closure0))))"

section \<open>The benchmark tasks\<close>

text \<open>
  The phase \<^verbatim>\<open>if (await directoryExists(d)) { start; await fs.rm(d); end; duration }\<close> of
  \<^verbatim>\<open>runCleanInstall\<close>, which leaves the duration at its initial \<open>0\<close> when the directory is
  not there.
\<close>

definition timed_delete :: "host \<Rightarrow> string \<Rightarrow> rat io" where
  "timed_delete h d =
     andThen (directoryExists h d) (\<lambda>found.
     if found then
       andThen (performance_now h) (\<lambda>delStart.
       andThen (fs_rm h d) (\<lambda>_.
       andThen (performance_now h) (\<lambda>delEnd.
       resolve (toFixed2 ((delEnd - delStart) / 1000)))))
     else resolve 0)"

definition installArgs :: "bool \<Rightarrow> string list" where
  "installArgs useLegacyPeerDeps =
     (if useLegacyPeerDeps then [''install'', ''--legacy-peer-deps''] else [''install''])"

definition runCleanInstall :: "host \<Rightarrow> bool \<Rightarrow> task_result io" where
  "runCleanInstall h useLegacyPeerDeps =
     andThen (performance_now h) (\<lambda>totalStartTime.
     andThen (getMemoryUsage h) (\<lambda>startMem.
     andThen (getCpuUsage h) (\<lambda>startCpu.
     andThen (timed_delete h ''node_modules'') (\<lambda>nodeModulesDeletionDuration.
     andThen (timed_delete h ''.next'') (\<lambda>nextFolderDeletionDuration.
     andThen (measurePerformance h ''npm'' [''cache'', ''clean'', ''--force''] None) (\<lambda>cacheCleanResult.
     andThen (measurePerformance h ''npm'' (installArgs useLegacyPeerDeps) None) (\<lambda>installResult.
     andThen (performance_now h) (\<lambda>totalEndTime.
     andThen (getMemoryUsage h) (\<lambda>endMem.
     andThen (getCpuUsage h) (\<lambda>endCpu.
     resolve
       \<lparr>command = ''Clean Install (cache, folders, install)'',
        amountOfProcessedItems = Absent,
        duration_ms = totalEndTime - totalStartTime,
        duration_s = toFixed2 ((totalEndTime - totalStartTime) / 1000),
        startMemory_MB = used startMem,
        endMemory_MB = used endMem,
        memoryUsage_MB = toFixed2 (used endMem - used startMem),
        startCpu_percent = toFixed2 startCpu,
        endCpu_percent = toFixed2 endCpu,
        exitCode = Absent,
        output_text = Absent,
        subTasks = Present
          [(''deleteNodeModules'', nodeModulesDeletionDuration),
           (''deleteNextFolder'', nextFolderDeletionDuration),
           (''npmCacheClean'', duration_s cacheCleanResult),
           (''npmInstall'', duration_s installResult)]\<rparr>))))))))))"

definition fileCount :: nat where
  "fileCount = 10000"

definition chunkSize :: nat where
  "chunkSize = 500"

definition fileContent :: string where
  "fileContent = replicate 10000 (CHR ''a'')"

definition file_name :: "string \<Rightarrow> nat \<Rightarrow> string" where
  "file_name tempDir j = path_join tempDir (''file-'' @ decimal j @ ''.txt'')"

text \<open>
  The inner loop \<^verbatim>\<open>for (let j = i; j < i + chunkSize && j < fileCount; j++)\<close> collects the
  writes of one batch.
\<close>

definition chunk :: "string \<Rightarrow> nat \<Rightarrow> string list" where
  "chunk tempDir i = map (file_name tempDir) [i..<min (i + chunkSize) fileCount]"

text \<open>
  The outer loop \<^verbatim>\<open>for (let i = 0; i < fileCount; i += chunkSize)\<close>, which awaits each batch
  before it starts the next.
\<close>

function writeChunks :: "host \<Rightarrow> string \<Rightarrow> nat \<Rightarrow> unit io" where
  "writeChunks h tempDir i w =
     (if i < fileCount then
        (case fs_writeFiles h (chunk tempDir i) (TextFile fileContent) w of
           (Fulfilled _, w') \<Rightarrow> writeChunks h tempDir (i + chunkSize) w'
         | (Rejected e, w') \<Rightarrow> (Rejected e, w')
         | (Pending, w') \<Rightarrow> (Pending, w'))
      else (Fulfilled (), w))"
  by pat_completeness auto
termination
  by (relation "measure (\<lambda>(h, tempDir, i, w). fileCount - i)") (auto simp: chunkSize_def)

declare writeChunks.simps [simp del]

definition runFileIoTest :: "host \<Rightarrow> string \<Rightarrow> task_result io" where
  "runFileIoTest h runTempDir =
     andThen (performance_now h) (\<lambda>totalStartTime.
     andThen (getMemoryUsage h) (\<lambda>startMem.
     andThen (getCpuUsage h) (\<lambda>startCpu.
     let tempDir = path_join runTempDir ''temp_files'' in
     andThen (performance_now h) (\<lambda>createStart.
     andThen (fs_mkdir h tempDir) (\<lambda>_.
     andThen (writeChunks h tempDir 0) (\<lambda>_.
     andThen (performance_now h) (\<lambda>createEnd.
     let createDuration = toFixed2 ((createEnd - createStart) / 1000) in
     andThen (performance_now h) (\<lambda>deleteStart.
     andThen (fs_rm h tempDir) (\<lambda>_.
     andThen (performance_now h) (\<lambda>deleteEnd.
     let deleteDuration = toFixed2 ((deleteEnd - deleteStart) / 1000) in
     andThen (performance_now h) (\<lambda>totalEndTime.
     andThen (getMemoryUsage h) (\<lambda>endMem.
     andThen (getCpuUsage h) (\<lambda>endCpu.
     resolve
       \<lparr>command = ''File I/O'',
        amountOfProcessedItems = Present fileCount,
        duration_ms = totalEndTime - totalStartTime,
        duration_s = toFixed2 ((totalEndTime - totalStartTime) / 1000),
        startMemory_MB = used startMem,
        endMemory_MB = used endMem,
        memoryUsage_MB = toFixed2 (used endMem - used startMem),
        startCpu_percent = toFixed2 startCpu,
        endCpu_percent = toFixed2 endCpu,
        exitCode = Absent,
        output_text = Absent,
        subTasks = Present
          [(''createFiles'', createDuration),
           (''deleteFiles'', deleteDuration)]\<rparr>)))))))))))))"

definition maxNumber :: nat where
  "maxNumber = 1000000"

definition runHeavyScript :: "host \<Rightarrow> task_result io" where
  "runHeavyScript h =
     andThen (performance_now h) (\<lambda>totalStartTime.
     andThen (getMemoryUsage h) (\<lambda>startMem.
     andThen (getCpuUsage h) (\<lambda>startCpu.
     let primesFound = findPrimes maxNumber in
     andThen (\<lambda>w. (Fulfilled (), emit (Found (length primesFound) maxNumber) w)) (\<lambda>_.
     andThen (performance_now h) (\<lambda>totalEndTime.
     andThen (getMemoryUsage h) (\<lambda>endMem.
     andThen (getCpuUsage h) (\<lambda>endCpu.
     resolve
       \<lparr>command = ''Heavy Node.js Script (in-process prime calculation)'',
        amountOfProcessedItems = Absent,
        duration_ms = totalEndTime - totalStartTime,
        duration_s = toFixed2 ((totalEndTime - totalStartTime) / 1000),
        startMemory_MB = used startMem,
        endMemory_MB = used endMem,
        memoryUsage_MB = toFixed2 (used endMem - used startMem),
        startCpu_percent = toFixed2 startCpu,
        endCpu_percent = toFixed2 endCpu,
        exitCode = Absent,
        output_text = Absent,
        subTasks = Absent\<rparr>)))))))"

definition imageCount :: nat where
  "imageCount = 200"

definition resizeWidth :: nat where
  "resizeWidth = 800"

definition image_name :: "string \<Rightarrow> nat \<Rightarrow> string" where
  "image_name tempDir i = path_join tempDir (''image-'' @ decimal i @ ''.jpg'')"

definition resized_name :: "string \<Rightarrow> nat \<Rightarrow> string" where
  "resized_name tempDir i = path_join tempDir (''image-'' @ decimal i @ ''-resized.jpg'')"

definition runImageProcessingTest :: "host \<Rightarrow> string \<Rightarrow> task_result io" where
  "runImageProcessingTest h runTempDir =
     andThen (performance_now h) (\<lambda>totalStartTime.
     andThen (getMemoryUsage h) (\<lambda>startMem.
     andThen (getCpuUsage h) (\<lambda>startCpu.
     let tempDir = path_join runTempDir ''temp_images'' in
     andThen (performance_now h) (\<lambda>createStart.
     andThen (fs_mkdir h tempDir) (\<lambda>_.
     andThen (sharp_create_all h (map (image_name tempDir) [0..<imageCount])) (\<lambda>_.
     andThen (performance_now h) (\<lambda>createEnd.
     let createDuration = toFixed2 ((createEnd - createStart) / 1000) in
     andThen (performance_now h) (\<lambda>processStart.
     andThen (sharp_resize_all h
                (map (\<lambda>i. (image_name tempDir i, resized_name tempDir i)) [0..<imageCount])
                resizeWidth) (\<lambda>_.
     andThen (performance_now h) (\<lambda>processEnd.
     let processDuration = toFixed2 ((processEnd - processStart) / 1000) in
     andThen (performance_now h) (\<lambda>totalEndTime.
     andThen (getMemoryUsage h) (\<lambda>endMem.
     andThen (getCpuUsage h) (\<lambda>endCpu.
     resolve
       \<lparr>command = ''Image Processing'',
        amountOfProcessedItems = Present imageCount,
        duration_ms = totalEndTime - totalStartTime,
        duration_s = toFixed2 ((totalEndTime - totalStartTime) / 1000),
        startMemory_MB = used startMem,
        endMemory_MB = used endMem,
        memoryUsage_MB = toFixed2 (used endMem - used startMem),
        startCpu_percent = toFixed2 startCpu,
        endCpu_percent = toFixed2 endCpu,
        exitCode = Absent,
        output_text = Absent,
        subTasks = Present
          [(''generateImages'', createDuration),
           (''resizeImages'', processDuration)]\<rparr>)))))))))))))"

definition runTypeScriptCheck :: "host \<Rightarrow> task_result io" where
  "runTypeScriptCheck h = measurePerformance h ''npx'' [''tsc'', ''--noEmit''] None"

definition runNextBuild :: "host \<Rightarrow> task_result io" where
  "runNextBuild h =
     andThen (directoryExists h ''.next'') (\<lambda>found.
     andThen (if found then fs_rm h ''.next'' else resolve ()) (\<lambda>_.
     measurePerformance h ''npx'' [''next'', ''build''] None))"

definition runLinterTest :: "host \<Rightarrow> task_result io" where
  "runLinterTest h = measurePerformance h ''npx'' [''next'', ''lint''] None"

section \<open>The orchestrator\<close>

definition SCRIPT_VERSION :: string where
  "SCRIPT_VERSION = ''2.1.0''"

definition mainDir :: string where
  "mainDir = ''benchmark-me''"

definition resultsDir :: string where
  "resultsDir = path_join mainDir ''results''"

text \<open>
  The \<^verbatim>\<open>systemInfo\<close> literal. \<^verbatim>\<open>os.cpus()[0].model\<close> throws a \<^verbatim>\<open>TypeError\<close> on a host that
  reports no processor.
\<close>

definition read_systemInfo :: "host \<Rightarrow> system_info io" where
  "read_systemInfo h w =
     (case os_cpus h of
        [] \<Rightarrow> (Rejected (TypeError ''os.cpus()[0] is undefined''), w)
      | model # _ \<Rightarrow>
          (Fulfilled
             \<lparr>hostname = os_hostname h,
              platform = os_platform h,
              arch = os_arch h,
              cpuModel = model,
              cpuCores = length (os_cpus h),
              totalMemory_MB = toFixed2 (of_nat (os_totalmem h (tick w)) / (1024 * 1024))\<rparr>,
           interact h w))"

text \<open>
  One \<^verbatim>\<open>if (testsToRun.includes(key)) results.benchmarks[key] = await task\<close> of \<^verbatim>\<open>main\<close>;
  \<open>bs\<close> is \<^verbatim>\<open>results.benchmarks\<close> so far.
\<close>

definition selected ::
  "string list \<Rightarrow> string \<Rightarrow> task_result io \<Rightarrow> (string \<times> task_result) list
     \<Rightarrow> (string \<times> task_result) list io" where
  "selected testsToRun key task bs =
     (if key \<in> set testsToRun
      then andThen (\<lambda>w. (Fulfilled (), emit (Begin key) w)) (\<lambda>_.
           andThen task (\<lambda>r. resolve (assign bs key r)))
      else resolve bs)"

text \<open>
  The prompt and the plain install that come before the build when the clean install is
  not selected.
\<close>

definition prompt_confirmInstall :: "host \<Rightarrow> bool io" where
  "prompt_confirmInstall h w =
     (let answer = confirmInstall h (tick w) in (Fulfilled answer, interact h (emit (Confirm answer) w)))"

definition install_before_build :: "host \<Rightarrow> string list \<Rightarrow> bool \<Rightarrow> unit io" where
  "install_before_build h testsToRun useLegacyPeerDeps =
     (if ''cleanInstall'' \<notin> set testsToRun then
        andThen (prompt_confirmInstall h) (\<lambda>confirmed.
        if confirmed
        then andThen (measurePerformance h ''npm'' (installArgs useLegacyPeerDeps) None) (\<lambda>_. resolve ())
        else resolve ())
      else resolve ())"

text \<open>The body of the \<^verbatim>\<open>for (let i = 1; i <= runCount; i++)\<close> loop, up to the summary it prints.\<close>

definition run ::
  "host \<Rightarrow> string list \<Rightarrow> bool \<Rightarrow> nat \<Rightarrow> nat \<Rightarrow> run_report io" where
  "run h testsToRun useLegacyPeerDeps runCount i =
     andThen (Date_now h) (\<lambda>runTimestamp.
     let runTempDir = path_join mainDir (''temp-'' @ decimal runTimestamp) in
     andThen (fs_mkdir h runTempDir) (\<lambda>_.
     andThen (Date_now h) (\<lambda>runStartTimeUTC.
     andThen (read_systemInfo h) (\<lambda>info.
     andThen (selected testsToRun ''cleanInstall'' (runCleanInstall h useLegacyPeerDeps) []) (\<lambda>b1.
     andThen (selected testsToRun ''nextBuild''
                (andThen (install_before_build h testsToRun useLegacyPeerDeps) (\<lambda>_. runNextBuild h))
                b1) (\<lambda>b2.
     andThen (selected testsToRun ''typeCheck'' (runTypeScriptCheck h) b2) (\<lambda>b3.
     andThen (selected testsToRun ''linter'' (runLinterTest h) b3) (\<lambda>b4.
     andThen (selected testsToRun ''imageProcessing'' (runImageProcessingTest h runTempDir) b4) (\<lambda>b5.
     andThen (selected testsToRun ''fileIo'' (runFileIoTest h runTempDir) b5) (\<lambda>b6.
     andThen (selected testsToRun ''heavyScript'' (runHeavyScript h) b6) (\<lambda>b7.
     andThen (Date_now h) (\<lambda>runEndTimeUTC.
     let results =
           \<lparr>scriptVersion = SCRIPT_VERSION,
            systemInfo = info,
            benchmarks = b7,
            runNumber = i,
            totalRuns = runCount,
            runStartTimeUTC = runStartTimeUTC,
            runEndTimeUTC = runEndTimeUTC\<rparr>;
         resultsFilename =
           ''benchmark-results-'' @ os_hostname h @ ''-'' @ decimal runTimestamp @ ''.json'';
         resultsPath = path_join resultsDir resultsFilename
     in
     andThen (fs_writeFiles h [resultsPath] (ReportFile results)) (\<lambda>_.
     andThen (fs_rm h runTempDir) (\<lambda>_.
     resolve results))))))))))))))"

text \<open>The loop over the runs; the reports of the runs done are collected for the theorems.\<close>

fun runs ::
  "host \<Rightarrow> string list \<Rightarrow> bool \<Rightarrow> nat \<Rightarrow> nat list \<Rightarrow> run_report list io" where
  "runs h testsToRun useLegacyPeerDeps runCount [] = resolve []"
| "runs h testsToRun useLegacyPeerDeps runCount (i # is) =
     andThen (run h testsToRun useLegacyPeerDeps runCount i) (\<lambda>r.
     andThen (runs h testsToRun useLegacyPeerDeps runCount is) (\<lambda>rs.
     resolve (r # rs)))"

text \<open>
  \<^verbatim>\<open>main\<close> after its three prompts: the tasks selected, the flag for \<^verbatim>\<open>npm install\<close> and the
  number of runs are the answers given.
\<close>

definition main :: "host \<Rightarrow> string list \<Rightarrow> bool \<Rightarrow> nat \<Rightarrow> run_report list io" where
  "main h testsToRun useLegacyPeerDeps runCount =
     andThen (fs_mkdir h resultsDir) (\<lambda>_.
     runs h testsToRun useLegacyPeerDeps runCount [1..<Suc runCount])"

text \<open>The keys of the checkbox prompt, in the order \<^verbatim>\<open>main\<close> tests them.\<close>

definition catalog :: "string list" where
  "catalog = [''cleanInstall'', ''nextBuild'', ''typeCheck'', ''linter'', ''imageProcessing'',
              ''fileIo'', ''heavyScript'']"

text \<open>Reading a trace.\<close>

fun begun :: "event list \<Rightarrow> string list" where
  "begun [] = []"
| "begun (Begin k # es) = k # begun es"
| "begun (e # es) = begun es"

fun signals :: "event list \<Rightarrow> signal list" where
  "signals [] = []"
| "signals (Kill s # es) = s # signals es"
| "signals (e # es) = signals es"

fun persisted :: "event list \<Rightarrow> (string \<times> run_report) list" where
  "persisted [] = []"
| "persisted (WriteFiles [p] (ReportFile r) # es) = (p, r) # persisted es"
| "persisted (e # es) = persisted es"

section \<open>Reading a run\<close>

text \<open>
  The latch follows the buffer: \<open>killed\<close> is set exactly when the buffer holds the trigger.
\<close>

definition latched :: "string option \<Rightarrow> closure \<Rightarrow> bool" where
  "latched killSignal c =
     (case killSignal of None \<Rightarrow> True
      | Some s \<Rightarrow> s = [] \<or> (killed c \<longleftrightarrow> string_includes (output_buffer c) s))"

text \<open>More chunks make the listener send the signal.\<close>

definition fires :: "string option \<Rightarrow> closure \<Rightarrow> string list \<Rightarrow> bool" where
  "fires killSignal c ds =
     (case killSignal of None \<Rightarrow> False
      | Some s \<Rightarrow> s \<noteq> [] \<and> \<not> killed c \<and> string_includes (output_buffer c @ concat ds) s)"

text \<open>
  How the promise of a runner settles: by the first \<^verbatim>\<open>'close'\<close> or \<^verbatim>\<open>'error'\<close> of the child, if
  there is one.
\<close>

datatype settlement = Exited "int option" | Failed string

fun settles :: "child_event list \<Rightarrow> settlement option" where
  "settles [] = None"
| "settles (Stdout d # es) = settles es"
| "settles (Stderr d # es) = settles es"
| "settles (Close code # es) = Some (Exited code)"
| "settles (Error err # es) = Some (Failed err)"

text \<open>The memory delta of a result is the difference of its two readings, rounded.\<close>

definition delta_rounded :: "task_result \<Rightarrow> bool" where
  "delta_rounded r \<longleftrightarrow> memoryUsage_MB r = toFixed2 (endMemory_MB r - startMemory_MB r)"

text \<open>An event of a task: not the ghost event of \<^verbatim>\<open>main\<close>, and not the write of a report.\<close>

fun task_event :: "event \<Rightarrow> bool" where
  "task_event (Begin k) = False"
| "task_event (WriteFiles ps (ReportFile r)) = False"
| "task_event e = True"

text \<open>
  A computation only adds events of a given kind to the trace, and the clock does not run
  backwards under it.
\<close>

definition adds :: "(event \<Rightarrow> bool) \<Rightarrow> 'a io \<Rightarrow> bool" where
  "adds P m \<longleftrightarrow>
     (\<forall>w. clock w \<le> clock (snd (m w))
          \<and> (\<exists>evs. trace (snd (m w)) = trace w @ evs \<and> list_all P evs))"

text \<open>A computation is fulfilled from every state.\<close>

definition succeeds :: "'a io \<Rightarrow> bool" where
  "succeeds m \<longleftrightarrow> (\<forall>w. \<exists>x w'. m w = (Fulfilled x, w'))"

text \<open>
  A host on which nothing fails but the commands themselves: every file operation and
  every image transform goes through, a processor is reported, and every child closes
  (with whatever exit code).
\<close>

definition calm :: "host \<Rightarrow> bool" where
  "calm h \<longleftrightarrow>
     (\<forall>k p. \<not> fs_fault h k p) \<and> (\<forall>k p. \<not> sharp_fault h k p) \<and> os_cpus h \<noteq> []
     \<and> (\<forall>k. \<exists>code. settles (child h k) = Some (Exited code))"

text \<open>The scratch directory of the run that starts in the state \<open>w\<close>.\<close>

definition runTempDir_of :: "host \<Rightarrow> world \<Rightarrow> string" where
  "runTempDir_of h w = path_join mainDir (''temp-'' @ decimal (date_now h (tick w)))"

text \<open>The file the report of that run is written to.\<close>

definition resultsPath_of :: "host \<Rightarrow> world \<Rightarrow> string" where
  "resultsPath_of h w =
     path_join resultsDir
       (''benchmark-results-'' @ os_hostname h @ ''-'' @ decimal (date_now h (tick w)) @ ''.json'')"

section \<open>A host to run the script on\<close>

text \<open>
  Every command fails with exit code 1 after a line of output, no file operation fails,
  the prompt is answered with yes, and the free memory grows by \<open>1.5 MiB + 4 KiB\<close> after
  the third interaction.
\<close>

definition host0 :: host where
  "host0 =
     \<lparr>elapse = (\<lambda>k. 1500),
      os_totalmem = (\<lambda>k. 8589934592),
      os_freemem = (\<lambda>k. if k < 3 then 4294967296 else 4296544256),
      cpu_usage = (\<lambda>k. 25 / 2),
      child = (\<lambda>k. [Stdout ''error: command failed'', Close (Some 1)]),
      child_writes = (\<lambda>k t. t),
      fs_fault = (\<lambda>k p. False),
      sharp_fault = (\<lambda>k p. False),
      confirmInstall = (\<lambda>k. True),
      date_now = (\<lambda>k. 1700000000000 + k),
      os_hostname = ''devbox'',
      os_platform = ''linux'',
      os_arch = ''x64'',
      os_cpus = [''cpu'', ''cpu'']\<rparr>"

definition world0 :: world where
  "world0 = \<lparr>fs = Map.empty, clock = 0, tick = 0, trace = []\<rparr>"

text \<open>
  The tasks a computation begins: the keys \<open>ks\<close> in this order when it is fulfilled, and an
  initial segment of them when it is rejected or never settles.
\<close>

definition begins :: "string list \<Rightarrow> 'a io \<Rightarrow> bool" where
  "begins ks m \<longleftrightarrow>
     (\<forall>w. \<exists>evs. trace (snd (m w)) = trace w @ evs \<and> prefix (begun evs) ks
             \<and> (\<forall>x. fst (m w) = Fulfilled x \<longrightarrow> begun evs = ks))"


text \<open>
  The used memory \<^verbatim>\<open>getMemoryUsage\<close> computes from what the host reports at its \<open>k\<close>-th
  interaction.
\<close>

definition used_at :: "host \<Rightarrow> nat \<Rightarrow> rat" where
  "used_at h k = of_nat (os_totalmem h k) / (1024 * 1024) - of_nat (os_freemem h k) / (1024 * 1024)"

text \<open>
  The memory fields of a result come from the host: the start reading was taken at the
  interaction \<open>t0\<close>, the end reading at a later interaction, the last but one before the
  state \<open>w'\<close> in which the task returns, and the delta is their rounded difference.
\<close>

definition sampled :: "host \<Rightarrow> nat \<Rightarrow> world \<Rightarrow> task_result \<Rightarrow> bool" where
  "sampled h t0 w' r \<longleftrightarrow>
     startMemory_MB r = used_at h t0
     \<and> (\<exists>t1. t0 < t1 \<and> tick w' = t1 + 2 \<and> endMemory_MB r = used_at h t1)
     \<and> memoryUsage_MB r = toFixed2 (endMemory_MB r - startMemory_MB r)"

text \<open>
  The task function \<^verbatim>\<open>main\<close> calls for a benchmark key, as the script pairs them: the
  function whose result is stored under \<^verbatim>\<open>results.benchmarks[key]\<close>. For the build it is the
  body of the \<^verbatim>\<open>if\<close>, the prompt and the plain install included.
\<close>

definition task_of :: "host \<Rightarrow> string list \<Rightarrow> bool \<Rightarrow> string \<Rightarrow> string \<Rightarrow> task_result io" where
  "task_of h testsToRun useLegacyPeerDeps runTempDir key =
     (if key = ''cleanInstall'' then runCleanInstall h useLegacyPeerDeps
      else if key = ''nextBuild'' then
        andThen (install_before_build h testsToRun useLegacyPeerDeps) (\<lambda>_. runNextBuild h)
      else if key = ''typeCheck'' then runTypeScriptCheck h
      else if key = ''linter'' then runLinterTest h
      else if key = ''imageProcessing'' then runImageProcessingTest h runTempDir
      else if key = ''fileIo'' then runFileIoTest h runTempDir
      else runHeavyScript h)"

section \<open>Sequencing\<close>

lemma andThen_Fulfilled: "m w = (Fulfilled x, w') \<Longrightarrow> andThen m f w = f x w'"
  by (simp add: andThen_def)

lemma andThen_Rejected: "m w = (Rejected e, w') \<Longrightarrow> andThen m f w = (Rejected e, w')"
  by (simp add: andThen_def)

lemma andThen_Pending: "m w = (Pending, w') \<Longrightarrow> andThen m f w = (Pending, w')"
  by (simp add: andThen_def)

lemma andThen_FulfilledE:
  assumes "andThen m f w = (Fulfilled y, w'')"
  obtains x w' where "m w = (Fulfilled x, w')" and "f x w' = (Fulfilled y, w'')"
  using assms by (auto simp: andThen_def split: prod.splits outcome.splits)

lemma andThen_resolve [simp]: "andThen (resolve x) f = f x"
  by (rule ext) (simp add: andThen_def resolve_def)

lemma trace_interact [simp]: "trace (interact h w) = trace w"
  by (simp add: interact_def)

lemma fs_interact [simp]: "fs (interact h w) = fs w"
  by (simp add: interact_def)

lemma tick_interact [simp]: "tick (interact h w) = Suc (tick w)"
  by (simp add: interact_def)

lemma clock_interact [simp]: "clock (interact h w) = clock w + elapse h (tick w)"
  by (simp add: interact_def)

lemma trace_emit [simp]: "trace (emit e w) = trace w @ [e]"
  by (simp add: emit_def)

lemma fs_emit [simp]: "fs (emit e w) = fs w"
  by (simp add: emit_def)

lemma tick_emit [simp]: "tick (emit e w) = tick w"
  by (simp add: emit_def)

lemma clock_emit [simp]: "clock (emit e w) = clock w"
  by (simp add: emit_def)

lemma performance_now_eq [simp]:
  "performance_now h w = (Fulfilled (of_nat (clock w + elapse h (tick w)) / 1000), interact h w)"
  by (simp add: performance_now_def Let_def)

lemma getMemoryUsage_eq:
  "getMemoryUsage h w =
     (Fulfilled \<lparr>total = of_nat (os_totalmem h (tick w)) / (1024 * 1024),
                 free = of_nat (os_freemem h (tick w)) / (1024 * 1024),
                 used = of_nat (os_totalmem h (tick w)) / (1024 * 1024)
                        - of_nat (os_freemem h (tick w)) / (1024 * 1024)\<rparr>,
      interact h w)"
  by (simp add: getMemoryUsage_def Let_def)

section \<open>Early termination\<close>

lemma string_includes_append: "string_includes a s \<Longrightarrow> string_includes (a @ b) s"
proof -
  assume "string_includes a s"
  then obtain ps ss where "a = ps @ s @ ss"
    by (auto simp: string_includes_def sublist_def)
  then have "a @ b = ps @ s @ (ss @ b)" by simp
  then show ?thesis unfolding string_includes_def sublist_def by blast
qed

lemma latched_closure0: "latched killSignal closure0"
  by (cases killSignal) (auto simp: latched_def closure0_def string_includes_def)

lemma handleOutput_eq:
  "handleOutput killSignal d (c, w) =
     (c\<lparr>output_buffer := output_buffer c @ d, killed := killed c \<or> fires killSignal c [d]\<rparr>,
      if fires killSignal c [d] then emit (Kill SIGTERM) w else w)"
  by (cases killSignal) (auto simp: handleOutput_def fires_def Let_def)

lemma latched_step:
  "latched killSignal c \<Longrightarrow>
   latched killSignal (c\<lparr>output_buffer := output_buffer c @ d, killed := killed c \<or> fires killSignal c [d]\<rparr>)"
  by (cases killSignal) (auto simp: latched_def fires_def string_includes_append)

lemma fires_Cons:
  assumes "latched killSignal c"
  shows "fires killSignal c (d # ds) \<longleftrightarrow>
           fires killSignal c [d]
           \<or> fires killSignal
                (c\<lparr>output_buffer := output_buffer c @ d, killed := killed c \<or> fires killSignal c [d]\<rparr>) ds"
proof (cases killSignal)
  case None
  then show ?thesis by (simp add: fires_def)
next
  case (Some s)
  have "string_includes (output_buffer c @ d) s \<Longrightarrow> string_includes (output_buffer c @ d @ concat ds) s"
    using string_includes_append [of "output_buffer c @ d" s "concat ds"] by simp
  then show ?thesis using Some assms
    by (auto simp: fires_def latched_def)
qed

lemma feed_eq:
  "latched killSignal c \<Longrightarrow>
   feed killSignal ds (c, w) =
     (c\<lparr>output_buffer := output_buffer c @ concat ds, killed := killed c \<or> fires killSignal c ds\<rparr>,
      if fires killSignal c ds then emit (Kill SIGTERM) w else w)"
proof (induction ds arbitrary: c w)
  case Nil
  have "\<not> fires killSignal c []"
    using Nil by (cases killSignal) (auto simp: fires_def latched_def)
  then show ?case by simp
next
  case (Cons d ds)
  let ?c1 = "c\<lparr>output_buffer := output_buffer c @ d, killed := killed c \<or> fires killSignal c [d]\<rparr>"
  have l1: "latched killSignal ?c1" using Cons.prems by (rule latched_step)
  have excl: "fires killSignal c [d] \<Longrightarrow> \<not> fires killSignal ?c1 ds"
    by (cases killSignal) (auto simp: fires_def)
  show ?case
    using Cons.IH [OF l1] fires_Cons [OF Cons.prems, of d ds] excl
    by (auto simp: handleOutput_eq)
qed

lemma trace_onClose:
  "trace (snd (onClose h cmd args startMem startCpu startTime c code w)) = trace w"
  by (simp add: onClose_def andThen_def getMemoryUsage_eq getCpuUsage_def resolve_def)

lemma trace_deliver:
  "latched killSignal c \<Longrightarrow>
   trace (snd (deliver h killSignal (onClose h cmd args startMem startCpu startTime) es c w)) =
     trace w @ (if fires killSignal c (chunks_of es) then [Kill SIGTERM] else [])"
proof (induction es arbitrary: c w)
  case Nil
  have "\<not> fires killSignal c []"
    using Nil by (cases killSignal) (auto simp: fires_def latched_def)
  then show ?case by simp
next
  case (Cons e es)
  have nofire: "\<not> fires killSignal c []"
    using Cons.prems by (cases killSignal) (auto simp: fires_def latched_def)
  have chunk: "trace (snd (deliver h killSignal (onClose h cmd args startMem startCpu startTime) es
                 (c\<lparr>output_buffer := output_buffer c @ d, killed := killed c \<or> fires killSignal c [d]\<rparr>)
                 (if fires killSignal c [d] then emit (Kill SIGTERM) (interact h w) else interact h w))) =
               trace w @ (if fires killSignal c (d # chunks_of es) then [Kill SIGTERM] else [])" for d
  proof -
    let ?c1 = "c\<lparr>output_buffer := output_buffer c @ d, killed := killed c \<or> fires killSignal c [d]\<rparr>"
    have l1: "latched killSignal ?c1" using Cons.prems by (rule latched_step)
    have excl: "fires killSignal c [d] \<Longrightarrow> \<not> fires killSignal ?c1 (chunks_of es)"
      by (cases killSignal) (auto simp: fires_def)
    show ?thesis
      using Cons.IH [OF l1] fires_Cons [OF Cons.prems, of d "chunks_of es"] excl
      by auto
  qed
  show ?case
  proof (cases e)
    case (Stdout d)
    then show ?thesis using chunk [of d] by (simp add: handleOutput_eq)
  next
    case (Stderr d)
    then show ?thesis using chunk [of d] by (simp add: handleOutput_eq)
  next
    case (Close code)
    then show ?thesis using nofire by (simp add: trace_onClose)
  next
    case (Error err)
    then show ?thesis using nofire by simp
  qed
qed

lemma trace_measurePerformance:
  "trace (snd (measurePerformance h cmd args killSignal w)) =
     trace w @ Spawn cmd args #
       (if fires killSignal closure0 (chunks_of (child h (tick w + 3))) then [Kill SIGTERM] else [])"
  by (simp add: measurePerformance_def andThen_def getMemoryUsage_eq getCpuUsage_def spawn_def
      Let_def trace_deliver [OF latched_closure0] eval_nat_numeral)

text \<open>
  Claim C1. A runner is started with a trigger \<open>s\<close> (not empty), and its child writes the
  chunks \<open>pre @ d # post\<close>, where \<open>d\<close> is the first chunk after which the buffer holds \<open>s\<close>.
  Then the listener has sent nothing after the chunks \<open>pre\<close>, has sent one \<open>SIGTERM\<close>
  after \<open>d\<close>, and has still sent that one signal and no other after \<open>post\<close>, whatever
  \<open>post\<close> holds; the whole invocation sends the signal once, right after the spawn.
\<close>

theorem termination_signal_once:
  assumes "s \<noteq> []"
    and "\<not> string_includes (concat pre) s"
    and "string_includes (concat (pre @ [d])) s"
  shows "trace (snd (feed (Some s) pre (closure0, w))) = trace w
       \<and> trace (snd (feed (Some s) (pre @ [d]) (closure0, w))) = trace w @ [Kill SIGTERM]
       \<and> trace (snd (feed (Some s) (pre @ d # post) (closure0, w))) = trace w @ [Kill SIGTERM]
       \<and> killed (fst (feed (Some s) (pre @ [d]) (closure0, w)))
       \<and> (chunks_of (child h (tick w + 3)) = pre @ d # post \<longrightarrow>
            trace (snd (measurePerformance h cmd args (Some s) w)) =
              trace w @ [Spawn cmd args, Kill SIGTERM])"
proof -
  have all: "string_includes (concat (pre @ d # post)) s"
    using string_includes_append [OF assms(3), of "concat post"] by simp
  have f0: "\<not> fires (Some s) closure0 pre"
    using assms(2) by (simp add: fires_def closure0_def)
  have f1: "fires (Some s) closure0 (pre @ [d])"
    using assms(1,3) by (simp add: fires_def closure0_def)
  have f2: "fires (Some s) closure0 (pre @ d # post)"
    using assms(1) all by (simp add: fires_def closure0_def)
  show ?thesis
    using f0 f1 f2
    by (simp add: feed_eq [OF latched_closure0] trace_measurePerformance)
qed

theorem termination_signal_once_witness:
  "trace (snd (feed (Some ''ready'') [''star'', ''ting re'', ''ady ready'', ''ready''] (closure0, \<lparr>fs = Map.empty, clock = 0, tick = 0, trace = []\<rparr>)))
     = [Kill SIGTERM]
   \<and> trace (snd (feed (Some ''ready'') [''star'', ''ting re''] (closure0, \<lparr>fs = Map.empty, clock = 0, tick = 0, trace = []\<rparr>))) = []"
proof -
  have a: "''ready'' \<noteq> []" by simp
  have b: "\<not> string_includes (concat [''star'', ''ting re'']) ''ready''"
    by (simp add: string_includes_def sublist_code prefix_code)
  have c: "string_includes (concat ([''star'', ''ting re''] @ [''ady ready''])) ''ready''"
    by (simp add: string_includes_def sublist_code prefix_code)
  show ?thesis
    using termination_signal_once [OF a b c, of "\<lparr>fs = Map.empty, clock = 0, tick = 0, trace = []\<rparr>" "[''ready'']"]
    by simp
qed


section \<open>What a computation adds to the trace\<close>

lemma addsI:
  assumes "\<And>w. clock w \<le> clock (snd (m w))"
    and "\<And>w. \<exists>evs. trace (snd (m w)) = trace w @ evs \<and> list_all P evs"
  shows "adds P m"
  using assms by (simp add: adds_def)

lemma adds_clock: "adds P m \<Longrightarrow> m w = (x, w') \<Longrightarrow> clock w \<le> clock w'"
  by (auto simp: adds_def dest: spec [of _ w])

lemma adds_trace:
  "adds P m \<Longrightarrow> m w = (x, w') \<Longrightarrow> \<exists>evs. trace w' = trace w @ evs \<and> list_all P evs"
  by (auto simp: adds_def dest: spec [of _ w])

lemma adds_mono: "adds P m \<Longrightarrow> (\<And>e. P e \<Longrightarrow> Q e) \<Longrightarrow> adds Q m"
  unfolding adds_def by (meson list_all_iff)

lemma adds_andThen:
  assumes m: "adds P m" and f: "\<And>x. adds P (f x)"
  shows "adds P (andThen m f)"
proof (rule addsI)
  fix w
  obtain x w1 where mw: "m w = (x, w1)" by (cases "m w")
  from adds_clock [OF m mw] adds_trace [OF m mw]
  obtain e1 where 1: "clock w \<le> clock w1" "trace w1 = trace w @ e1" "list_all P e1" by blast
  show "clock w \<le> clock (snd (andThen m f w))"
  proof (cases x)
    case (Fulfilled y)
    obtain z w2 where fw: "f y w1 = (z, w2)" by (cases "f y w1")
    from adds_clock [OF f fw] 1 have "clock w \<le> clock w2" by simp
    then show ?thesis using mw Fulfilled fw by (simp add: andThen_def)
  qed (use mw 1 in \<open>simp_all add: andThen_def\<close>)
  show "\<exists>evs. trace (snd (andThen m f w)) = trace w @ evs \<and> list_all P evs"
  proof (cases x)
    case (Fulfilled y)
    obtain z w2 where fw: "f y w1 = (z, w2)" by (cases "f y w1")
    from adds_trace [OF f fw] obtain e2 where "trace w2 = trace w1 @ e2" "list_all P e2" by blast
    with 1 have "trace w2 = trace w @ (e1 @ e2) \<and> list_all P (e1 @ e2)" by simp
    then show ?thesis using mw Fulfilled fw by (auto simp: andThen_def simp del: append_assoc)
  qed (use mw 1 in \<open>auto simp: andThen_def\<close>)
qed

lemma adds_resolve [simp]: "adds P (resolve x)"
  by (rule addsI) (simp_all add: resolve_def)

lemma adds_if: "adds P a \<Longrightarrow> adds P b \<Longrightarrow> adds P (if c then a else b)"
  by simp

lemma adds_performance_now [simp]: "adds P (performance_now h)"
  by (rule addsI) simp_all

lemma adds_Date_now [simp]: "adds P (Date_now h)"
  by (rule addsI) (simp_all add: Date_now_def)

lemma adds_getMemoryUsage [simp]: "adds P (getMemoryUsage h)"
  by (rule addsI) (simp_all add: getMemoryUsage_eq)

lemma adds_getCpuUsage [simp]: "adds P (getCpuUsage h)"
  by (rule addsI) (simp_all add: getCpuUsage_def)

lemma adds_directoryExists [simp]: "adds P (directoryExists h d)"
  by (rule addsI) (simp_all add: directoryExists_def)

lemma adds_read_systemInfo [simp]: "adds P (read_systemInfo h)"
  by (rule addsI) (simp_all add: read_systemInfo_def split: list.splits)

lemma adds_fs_mkdir: "P (Mkdir p) \<Longrightarrow> adds P (fs_mkdir h p)"
  by (rule addsI) (simp_all add: fs_mkdir_def Let_def)

lemma adds_fs_rm: "P (Rm p) \<Longrightarrow> adds P (fs_rm h p)"
  by (rule addsI) (simp_all add: fs_rm_def Let_def)

lemma adds_fs_writeFiles: "P (WriteFiles ps content) \<Longrightarrow> adds P (fs_writeFiles h ps content)"
  by (rule addsI) (simp_all add: fs_writeFiles_def Let_def)

lemma adds_sharp_create_all: "P (SharpCreate ps) \<Longrightarrow> adds P (sharp_create_all h ps)"
  by (rule addsI) (simp_all add: sharp_create_all_def Let_def)

lemma adds_sharp_resize_all: "P (SharpResize ps n) \<Longrightarrow> adds P (sharp_resize_all h ps n)"
  by (rule addsI) (simp_all add: sharp_resize_all_def Let_def)

lemma adds_spawn: "P (Spawn cmd args) \<Longrightarrow> adds P (spawn h cmd args)"
  by (rule addsI) (simp_all add: spawn_def Let_def)

lemma adds_onClose [simp]: "adds P (onClose h cmd args startMem startCpu startTime c code)"
  unfolding onClose_def by (intro adds_andThen adds_resolve) simp_all

lemma clock_deliver:
  "clock w \<le> clock (snd (deliver h killSignal (onClose h cmd args startMem startCpu startTime) es c w))"
proof (induction es arbitrary: c w)
  case Nil
  then show ?case by simp
next
  case (Cons e es)
  have step: "clock w \<le> clock (snd (deliver h killSignal (onClose h cmd args startMem startCpu startTime) es c' 
                 (if b then emit (Kill SIGTERM) (interact h w) else interact h w)))" for c' b
    using Cons.IH [where c = c' and w = "if b then emit (Kill SIGTERM) (interact h w) else interact h w"]
    by (cases b) simp_all
  show ?case
  proof (cases e)
    case (Close code)
    obtain x w' where oc: "onClose h cmd args startMem startCpu startTime c code (interact h w) = (x, w')"
      by (cases "onClose h cmd args startMem startCpu startTime c code (interact h w)")
    have "clock (interact h w) \<le> clock w'"
      by (rule adds_clock [OF adds_onClose [where P = "\<lambda>_. True"] oc])
    then show ?thesis using Close oc by simp
  qed (use step in \<open>simp_all add: handleOutput_eq\<close>)
qed

lemma adds_measurePerformance:
  assumes "P (Spawn cmd args)" "P (Kill SIGTERM)"
  shows "adds P (measurePerformance h cmd args killSignal)"
proof (rule addsI)
  fix w
  show "\<exists>evs. trace (snd (measurePerformance h cmd args killSignal w)) = trace w @ evs \<and> list_all P evs"
    using assms by (simp add: trace_measurePerformance)
  show "clock w \<le> clock (snd (measurePerformance h cmd args killSignal w))"
    using clock_deliver [of "interact h (emit (Spawn cmd args) (interact h (interact h (interact h w))))\<lparr>fs := t\<rparr>" for t]
    apply (simp add: measurePerformance_def andThen_def getMemoryUsage_eq getCpuUsage_def spawn_def Let_def)
    by (meson add_leD1 le_trans)
qed


lemma adds_emit: "P e \<Longrightarrow> adds P (\<lambda>w. (Fulfilled (), emit e w))"
  by (rule addsI) simp_all

lemma adds_timed_delete: "P (Rm d) \<Longrightarrow> adds P (timed_delete h d)"
  unfolding timed_delete_def
  by (intro adds_andThen adds_if adds_resolve adds_fs_rm adds_performance_now adds_directoryExists)

lemma task_event_measurePerformance: "adds task_event (measurePerformance h cmd args killSignal)"
  by (rule adds_measurePerformance) simp_all

lemma task_event_runCleanInstall: "adds task_event (runCleanInstall h useLegacyPeerDeps)"
  unfolding runCleanInstall_def
  by (intro adds_andThen adds_resolve adds_timed_delete task_event_measurePerformance
      adds_performance_now adds_getMemoryUsage adds_getCpuUsage) simp_all

lemma writeChunks_unfold:
  "writeChunks h tempDir i =
     (if i < fileCount
      then andThen (fs_writeFiles h (chunk tempDir i) (TextFile fileContent))
             (\<lambda>_. writeChunks h tempDir (i + chunkSize))
      else resolve ())"
  by (rule ext, subst writeChunks.simps)
    (simp add: andThen_def resolve_def split: prod.splits outcome.splits)

lemma task_event_writeChunks: "adds task_event (writeChunks h tempDir i)"
proof (induction "fileCount - i" arbitrary: i rule: less_induct)
  case less
  show ?case
  proof (cases "i < fileCount")
    case False
    then show ?thesis by (subst writeChunks_unfold) simp
  next
    case True
    then have "fileCount - (i + chunkSize) < fileCount - i"
      by (simp add: chunkSize_def)
    then have "adds task_event (writeChunks h tempDir (i + chunkSize))"
      by (rule less)
    then show ?thesis
      using True
      by (subst writeChunks_unfold) (auto intro!: adds_andThen adds_fs_writeFiles)
  qed
qed

lemma task_event_runFileIoTest: "adds task_event (runFileIoTest h runTempDir)"
  unfolding runFileIoTest_def Let_def
  by (intro adds_andThen adds_resolve adds_fs_rm adds_fs_mkdir task_event_writeChunks
      adds_performance_now adds_getMemoryUsage adds_getCpuUsage) simp_all

lemma task_event_runHeavyScript: "adds task_event (runHeavyScript h)"
  unfolding runHeavyScript_def Let_def
  by (intro adds_andThen adds_resolve adds_emit
      adds_performance_now adds_getMemoryUsage adds_getCpuUsage) simp_all

lemma task_event_runImageProcessingTest: "adds task_event (runImageProcessingTest h runTempDir)"
  unfolding runImageProcessingTest_def Let_def
  by (intro adds_andThen adds_resolve adds_fs_mkdir adds_sharp_create_all adds_sharp_resize_all
      adds_performance_now adds_getMemoryUsage adds_getCpuUsage) simp_all

lemma task_event_runTypeScriptCheck: "adds task_event (runTypeScriptCheck h)"
  unfolding runTypeScriptCheck_def by (rule task_event_measurePerformance)

lemma task_event_runLinterTest: "adds task_event (runLinterTest h)"
  unfolding runLinterTest_def by (rule task_event_measurePerformance)

lemma task_event_runNextBuild: "adds task_event (runNextBuild h)"
  unfolding runNextBuild_def
  by (intro adds_andThen adds_if adds_resolve adds_fs_rm adds_directoryExists
      task_event_measurePerformance) simp_all

lemma adds_prompt_confirmInstall: "(\<And>b. P (Confirm b)) \<Longrightarrow> adds P (prompt_confirmInstall h)"
  by (rule addsI) (simp_all add: prompt_confirmInstall_def Let_def)

lemma task_event_install_before_build:
  "adds task_event (install_before_build h testsToRun useLegacyPeerDeps)"
  unfolding install_before_build_def
  by (intro adds_andThen adds_if adds_resolve adds_prompt_confirmInstall
      task_event_measurePerformance) simp_all

lemma task_event_build:
  "adds task_event
     (andThen (install_before_build h testsToRun useLegacyPeerDeps) (\<lambda>_. runNextBuild h))"
  by (intro adds_andThen task_event_install_before_build task_event_runNextBuild)

lemma begun_append [simp]: "begun (xs @ ys) = begun xs @ begun ys"
  by (induction xs rule: begun.induct) simp_all

lemma persisted_append [simp]: "persisted (xs @ ys) = persisted xs @ persisted ys"
  by (induction xs rule: persisted.induct) simp_all

lemma begun_task_events: "list_all task_event evs \<Longrightarrow> begun evs = []"
  by (induction evs rule: begun.induct) simp_all

lemma persisted_task_events: "list_all task_event evs \<Longrightarrow> persisted evs = []"
  by (induction evs rule: persisted.induct) simp_all


section \<open>How a runner settles\<close>

lemma deliver_Exited:
  "settles es = Some (Exited code) \<Longrightarrow>
   \<exists>c' w1. deliver h killSignal onclose es c w = onclose c' code w1"
proof (induction es arbitrary: c w)
  case Nil
  then show ?case by simp
next
  case (Cons e es)
  then show ?case by (cases e) (auto simp: handleOutput_eq)
qed

lemma deliver_Failed:
  "settles es = Some (Failed err) \<Longrightarrow>
   \<exists>w1. deliver h killSignal onclose es c w = (Rejected (SpawnError err), w1)"
proof (induction es arbitrary: c w)
  case Nil
  then show ?case by simp
next
  case (Cons e es)
  then show ?case by (cases e) (auto simp: handleOutput_eq)
qed

lemma deliver_None:
  "settles es = None \<Longrightarrow> \<exists>w1. deliver h killSignal onclose es c w = (Pending, w1)"
proof (induction es arbitrary: c w)
  case Nil
  then show ?case by simp
next
  case (Cons e es)
  then show ?case by (cases e) (auto simp: handleOutput_eq)
qed

lemma onClose_result:
  "\<exists>r w'. onClose h cmd args startMem startCpu startTime c code w = (Fulfilled r, w')
     \<and> exitCode r = Present code \<and> delta_rounded r \<and> startMemory_MB r = used startMem
     \<and> amountOfProcessedItems r = Absent \<and> subTasks r = Absent"
  by (simp add: onClose_def andThen_def getMemoryUsage_eq getCpuUsage_def resolve_def
      delta_rounded_def)

lemma measurePerformance_unfold:
  "measurePerformance h cmd args killSignal w =
     deliver h killSignal
       (onClose h cmd args
          \<lparr>total = of_nat (os_totalmem h (tick w)) / (1024 * 1024),
           free = of_nat (os_freemem h (tick w)) / (1024 * 1024),
           used = of_nat (os_totalmem h (tick w)) / (1024 * 1024)
                  - of_nat (os_freemem h (tick w)) / (1024 * 1024)\<rparr>
          (cpu_usage h (tick w + 1))
          (of_nat (clock (interact h (interact h (interact h w)))) / 1000))
       (child h (tick w + 3)) closure0
       ((interact h (emit (Spawn cmd args) (interact h (interact h (interact h w)))))
          \<lparr>fs := child_writes h (tick w + 3) (fs w)\<rparr>)"
  by (simp add: measurePerformance_def andThen_def getMemoryUsage_eq getCpuUsage_def spawn_def
      Let_def eval_nat_numeral)

lemma measurePerformance_Exited:
  assumes "settles (child h (tick w + 3)) = Some (Exited code)"
  shows "\<exists>r w'. measurePerformance h cmd args killSignal w = (Fulfilled r, w')
           \<and> exitCode r = Present code \<and> delta_rounded r
           \<and> amountOfProcessedItems r = Absent \<and> subTasks r = Absent"
proof -
  from deliver_Exited [OF assms] obtain c' w1 where
    "measurePerformance h cmd args killSignal w =
       onClose h cmd args
          \<lparr>total = of_nat (os_totalmem h (tick w)) / (1024 * 1024),
           free = of_nat (os_freemem h (tick w)) / (1024 * 1024),
           used = of_nat (os_totalmem h (tick w)) / (1024 * 1024)
                  - of_nat (os_freemem h (tick w)) / (1024 * 1024)\<rparr>
          (cpu_usage h (tick w + 1))
          (of_nat (clock (interact h (interact h (interact h w)))) / 1000) c' code w1"
    unfolding measurePerformance_unfold by blast
  then show ?thesis using onClose_result by metis
qed

lemma measurePerformance_Failed:
  assumes "settles (child h (tick w + 3)) = Some (Failed err)"
  shows "\<exists>w'. measurePerformance h cmd args killSignal w = (Rejected (SpawnError err), w')"
  using deliver_Failed [OF assms] unfolding measurePerformance_unfold by blast

lemma measurePerformance_None:
  assumes "settles (child h (tick w + 3)) = None"
  shows "\<exists>w'. measurePerformance h cmd args killSignal w = (Pending, w')"
  using deliver_None [OF assms] unfolding measurePerformance_unfold by blast

lemma measurePerformance_Fulfilled:
  assumes "measurePerformance h cmd args killSignal w = (Fulfilled r, w')"
  shows "\<exists>code. settles (child h (tick w + 3)) = Some (Exited code) \<and> exitCode r = Present code
           \<and> delta_rounded r \<and> amountOfProcessedItems r = Absent \<and> subTasks r = Absent"
proof (cases "settles (child h (tick w + 3))")
  case None
  from measurePerformance_None [OF this, of cmd args killSignal] assms show ?thesis by auto
next
  case (Some s)
  show ?thesis
  proof (cases s)
    case (Exited code)
    from measurePerformance_Exited [OF Some [unfolded Exited], of cmd args killSignal] assms
    show ?thesis using Some Exited by auto
  next
    case (Failed err)
    from measurePerformance_Failed [OF Some [unfolded Failed], of cmd args killSignal] assms
    show ?thesis by auto
  qed
qed

lemma measurePerformance_Rejected:
  assumes "measurePerformance h cmd args killSignal w = (Rejected e, w')"
  shows "\<exists>err. settles (child h (tick w + 3)) = Some (Failed err) \<and> e = SpawnError err"
proof (cases "settles (child h (tick w + 3))")
  case None
  from measurePerformance_None [OF this, of cmd args killSignal] assms show ?thesis by auto
next
  case (Some s)
  show ?thesis
  proof (cases s)
    case (Exited code)
    from measurePerformance_Exited [OF Some [unfolded Exited], of cmd args killSignal] assms
    show ?thesis by auto
  next
    case (Failed err)
    from measurePerformance_Failed [OF Some [unfolded Failed], of cmd args killSignal] assms
    show ?thesis using Some Failed by auto
  qed
qed

section \<open>Computations that cannot fail on a calm host\<close>

lemma succeedsI: "(\<And>w. \<exists>x w'. m w = (Fulfilled x, w')) \<Longrightarrow> succeeds m"
  by (simp add: succeeds_def)

lemma succeedsD: "succeeds m \<Longrightarrow> \<exists>x w'. m w = (Fulfilled x, w')"
  by (simp add: succeeds_def)

lemma succeeds_andThen:
  assumes "succeeds m" and "\<And>x. succeeds (f x)"
  shows "succeeds (andThen m f)"
proof (rule succeedsI)
  fix w
  from succeedsD [OF assms(1)] obtain x w1 where 1: "m w = (Fulfilled x, w1)" by blast
  from succeedsD [OF assms(2)] obtain y w2 where 2: "f x w1 = (Fulfilled y, w2)" by blast
  show "\<exists>y w'. andThen m f w = (Fulfilled y, w')"
    using 1 2 by (simp add: andThen_def)
qed

lemma succeeds_resolve [simp]: "succeeds (resolve x)"
  by (simp add: succeeds_def resolve_def)

lemma succeeds_if: "succeeds a \<Longrightarrow> succeeds b \<Longrightarrow> succeeds (if c then a else b)"
  by simp

lemma succeeds_emit [simp]: "succeeds (\<lambda>w. (Fulfilled (), emit e w))"
  by (simp add: succeeds_def)

lemma succeeds_performance_now [simp]: "succeeds (performance_now h)"
  by (rule succeedsI) (simp only: performance_now_eq, blast)

lemma succeeds_Date_now [simp]: "succeeds (Date_now h)"
  by (simp add: succeeds_def Date_now_def)

lemma succeeds_getMemoryUsage [simp]: "succeeds (getMemoryUsage h)"
  by (simp add: succeeds_def getMemoryUsage_eq)

lemma succeeds_getCpuUsage [simp]: "succeeds (getCpuUsage h)"
  by (simp add: succeeds_def getCpuUsage_def)

lemma succeeds_directoryExists [simp]: "succeeds (directoryExists h d)"
  by (simp add: succeeds_def directoryExists_def)

lemma succeeds_prompt_confirmInstall [simp]: "succeeds (prompt_confirmInstall h)"
  by (simp add: succeeds_def prompt_confirmInstall_def Let_def)

lemma succeeds_read_systemInfo: "calm h \<Longrightarrow> succeeds (read_systemInfo h)"
  by (auto simp: succeeds_def read_systemInfo_def calm_def split: list.splits)

lemma succeeds_fs_mkdir: "calm h \<Longrightarrow> succeeds (fs_mkdir h p)"
  by (simp add: succeeds_def fs_mkdir_def calm_def Let_def)

lemma succeeds_fs_rm: "calm h \<Longrightarrow> succeeds (fs_rm h p)"
  by (simp add: succeeds_def fs_rm_def calm_def Let_def)

lemma succeeds_fs_writeFiles: "calm h \<Longrightarrow> succeeds (fs_writeFiles h ps content)"
  by (simp add: succeeds_def fs_writeFiles_def calm_def Let_def all_settled_def)

lemma succeeds_sharp_create_all: "calm h \<Longrightarrow> succeeds (sharp_create_all h ps)"
  by (simp add: succeeds_def sharp_create_all_def calm_def Let_def all_settled_def)

lemma succeeds_sharp_resize_all: "calm h \<Longrightarrow> succeeds (sharp_resize_all h ps n)"
  by (simp add: succeeds_def sharp_resize_all_def calm_def Let_def all_settled_def)

lemma succeeds_measurePerformance: "calm h \<Longrightarrow> succeeds (measurePerformance h cmd args killSignal)"
proof (rule succeedsI)
  fix w :: world
  assume "calm h"
  then have "\<exists>code. settles (child h (tick w + 3)) = Some (Exited code)"
    unfolding calm_def by blast
  then obtain code where "settles (child h (tick w + 3)) = Some (Exited code)" ..
  from measurePerformance_Exited [OF this, of cmd args killSignal]
  show "\<exists>x w'. measurePerformance h cmd args killSignal w = (Fulfilled x, w')" by blast
qed

lemma succeeds_timed_delete: "calm h \<Longrightarrow> succeeds (timed_delete h d)"
  unfolding timed_delete_def
  by (intro succeeds_andThen succeeds_if succeeds_resolve succeeds_fs_rm
      succeeds_performance_now succeeds_directoryExists)

lemma succeeds_runCleanInstall: "calm h \<Longrightarrow> succeeds (runCleanInstall h useLegacyPeerDeps)"
  unfolding runCleanInstall_def
  by (intro succeeds_andThen succeeds_resolve succeeds_timed_delete succeeds_measurePerformance
      succeeds_performance_now succeeds_getMemoryUsage succeeds_getCpuUsage)

lemma succeeds_writeChunks: "calm h \<Longrightarrow> succeeds (writeChunks h tempDir i)"
proof (induction "fileCount - i" arbitrary: i rule: less_induct)
  case less
  show ?case
  proof (cases "i < fileCount")
    case False
    then show ?thesis by (subst writeChunks_unfold) simp
  next
    case True
    then have "fileCount - (i + chunkSize) < fileCount - i"
      by (simp add: chunkSize_def)
    then have "succeeds (writeChunks h tempDir (i + chunkSize))"
      using less by blast
    then show ?thesis
      using True less.prems
      by (subst writeChunks_unfold) (auto intro!: succeeds_andThen succeeds_fs_writeFiles)
  qed
qed

lemma succeeds_runFileIoTest: "calm h \<Longrightarrow> succeeds (runFileIoTest h runTempDir)"
  unfolding runFileIoTest_def Let_def
  by (intro succeeds_andThen succeeds_resolve succeeds_fs_rm succeeds_fs_mkdir
      succeeds_writeChunks succeeds_performance_now succeeds_getMemoryUsage succeeds_getCpuUsage)

lemma succeeds_runHeavyScript: "succeeds (runHeavyScript h)"
  unfolding runHeavyScript_def Let_def
  by (intro succeeds_andThen succeeds_resolve succeeds_emit
      succeeds_performance_now succeeds_getMemoryUsage succeeds_getCpuUsage)

lemma succeeds_runImageProcessingTest: "calm h \<Longrightarrow> succeeds (runImageProcessingTest h runTempDir)"
  unfolding runImageProcessingTest_def Let_def
  by (intro succeeds_andThen succeeds_resolve succeeds_fs_mkdir succeeds_sharp_create_all
      succeeds_sharp_resize_all succeeds_performance_now succeeds_getMemoryUsage
      succeeds_getCpuUsage)

lemma succeeds_runTypeScriptCheck: "calm h \<Longrightarrow> succeeds (runTypeScriptCheck h)"
  unfolding runTypeScriptCheck_def by (rule succeeds_measurePerformance)

lemma succeeds_runLinterTest: "calm h \<Longrightarrow> succeeds (runLinterTest h)"
  unfolding runLinterTest_def by (rule succeeds_measurePerformance)

lemma succeeds_runNextBuild: "calm h \<Longrightarrow> succeeds (runNextBuild h)"
  unfolding runNextBuild_def
  by (intro succeeds_andThen succeeds_if succeeds_resolve succeeds_fs_rm
      succeeds_directoryExists succeeds_measurePerformance)

lemma succeeds_install_before_build:
  "calm h \<Longrightarrow> succeeds (install_before_build h testsToRun useLegacyPeerDeps)"
  unfolding install_before_build_def
  by (intro succeeds_andThen succeeds_if succeeds_resolve succeeds_prompt_confirmInstall
      succeeds_measurePerformance)

lemma succeeds_selected: "succeeds task \<Longrightarrow> succeeds (selected testsToRun key task bs)"
  unfolding selected_def
  by (intro succeeds_andThen succeeds_if succeeds_resolve succeeds_emit)

lemma succeeds_run: "calm h \<Longrightarrow> succeeds (run h testsToRun useLegacyPeerDeps runCount i)"
  unfolding run_def Let_def
  by (intro succeeds_andThen succeeds_resolve succeeds_selected succeeds_Date_now
      succeeds_fs_mkdir succeeds_fs_rm succeeds_fs_writeFiles succeeds_read_systemInfo
      succeeds_runCleanInstall succeeds_runNextBuild succeeds_install_before_build
      succeeds_runTypeScriptCheck succeeds_runLinterTest succeeds_runImageProcessingTest
      succeeds_runFileIoTest succeeds_runHeavyScript)

lemma succeeds_runs: "calm h \<Longrightarrow> succeeds (runs h testsToRun useLegacyPeerDeps runCount js)"
  by (induction js) (auto intro!: succeeds_andThen succeeds_run)

lemma succeeds_main: "calm h \<Longrightarrow> succeeds (main h testsToRun useLegacyPeerDeps runCount)"
  unfolding main_def by (intro succeeds_andThen succeeds_fs_mkdir succeeds_runs)

lemma calm_host0: "calm host0"
  by (simp add: calm_def host0_def)


section \<open>Rounding and the memory delta\<close>

lemma toFixed2_nonneg: "0 \<le> x \<Longrightarrow> 0 \<le> toFixed2 x"
  by (simp add: toFixed2_def)

lemma toFixed2_close: "\<bar>toFixed2 x - x\<bar> \<le> 1 / 200"
proof -
  have fl: "\<bar>of_int \<lfloor>y * 100 + 1 / 2\<rfloor> / 100 - y\<bar> \<le> 1 / 200" for y :: rat
  proof -
    define n where "n = \<lfloor>y * 100 + 1 / 2\<rfloor>"
    have "of_int n \<le> y * 100 + 1 / 2" and "y * 100 + 1 / 2 < of_int n + 1"
      unfolding n_def by linarith+
    then have "\<bar>of_int n / 100 - y\<bar> \<le> 1 / 200"
      by linarith
    then show ?thesis unfolding n_def .
  qed
  show ?thesis
  proof (cases "x < 0")
    case True
    have "\<bar>toFixed2 x - x\<bar> = \<bar>of_int \<lfloor>(- x) * 100 + 1 / 2\<rfloor> / 100 - (- x)\<bar>"
      using True by (simp add: toFixed2_def abs_minus_commute)
    then show ?thesis using fl [of "- x"] by simp
  next
    case False
    then show ?thesis using fl [of x] by (simp add: toFixed2_def)
  qed
qed

lemma toFixed2_hundredths: "\<exists>n::int. toFixed2 x = of_int n / 100"
proof (cases "x < 0")
  case True
  then have "toFixed2 x = of_int (- \<lfloor>(- x) * 100 + 1 / 2\<rfloor>) / 100"
    by (simp add: toFixed2_def)
  then show ?thesis by blast
next
  case False
  then show ?thesis by (auto simp: toFixed2_def)
qed

lemma toFixed2_example: "toFixed2 (1048191 / 256 - 4096) = - 3 / 2"
  by code_simp


section \<open>Names of files\<close>

lemma digit_char_inj: "a < 10 \<Longrightarrow> b < 10 \<Longrightarrow> digit_char a = digit_char b \<Longrightarrow> a = b"
proof -
  assume a: "a < 10" and b: "b < 10" and eq: "digit_char a = digit_char b"
  have "(of_char (digit_char a) :: nat) = (48 + a) mod 256"
    and "(of_char (digit_char b) :: nat) = (48 + b) mod 256"
    by (simp_all only: digit_char_def of_char_of)
  with eq have "(48 + a) mod 256 = (48 + b) mod 256" by simp
  with a b show "a = b" by simp
qed

lemma decimal_not_Nil: "decimal n \<noteq> []"
  by (subst decimal.simps) simp

lemma decimal_inj: "decimal n = decimal m \<Longrightarrow> n = m"
proof (induction n arbitrary: m rule: decimal.induct)
  case (1 n)
  show ?case
  proof (cases "n < 10")
    case True
    show ?thesis
    proof (cases "m < 10")
      case m: True
      from "1.prems" True m have "digit_char n = digit_char m"
        by (simp add: decimal.simps [of n] decimal.simps [of m])
      then show ?thesis using True m by (rule_tac digit_char_inj)
    next
      case m: False
      from "1.prems" True m have "decimal (m div 10) = []"
        by (simp add: decimal.simps [of n] decimal.simps [of m])
      then show ?thesis using decimal_not_Nil by blast
    qed
  next
    case False
    show ?thesis
    proof (cases "m < 10")
      case m: True
      from "1.prems" False m have "decimal (n div 10) = []"
        by (simp add: decimal.simps [of n] decimal.simps [of m])
      then show ?thesis using decimal_not_Nil by blast
    next
      case m: False
      from "1.prems" False m
      have "decimal (n div 10) = decimal (m div 10)" "digit_char (n mod 10) = digit_char (m mod 10)"
        by (simp_all add: decimal.simps [of n] decimal.simps [of m])
      then have "n div 10 = m div 10" "n mod 10 = m mod 10"
        using "1.IH" [OF False] digit_char_inj [of "n mod 10" "m mod 10"] by auto
      then show ?thesis by (metis div_mult_mod_eq)
    qed
  qed
qed

lemma file_name_inj: "file_name d i = file_name d j \<Longrightarrow> i = j"
  by (simp add: file_name_def path_join_def decimal_inj)

lemma resized_name_inj: "resized_name d i = resized_name d j \<Longrightarrow> i = j"
  by (simp add: resized_name_def path_join_def decimal_inj)

lemma image_name_inj: "image_name d i = image_name d j \<Longrightarrow> i = j"
  by (simp add: image_name_def path_join_def decimal_inj)

lemma is_within_file_name: "is_within d (file_name d j)"
  by (simp add: is_within_def file_name_def path_join_def)

lemma decimal_digit: "n < 10 \<Longrightarrow> decimal n = [digit_char n]"
  by (subst decimal.simps) simp

lemma decimal_step: "10 \<le> n \<Longrightarrow> decimal n = decimal (n div 10) @ [digit_char (n mod 10)]"
  by (subst decimal.simps) simp

lemma digit_chars:
  "digit_char 0 = CHR ''0''" "digit_char 1 = CHR ''1''" "digit_char 2 = CHR ''2''"
  "digit_char 3 = CHR ''3''" "digit_char 4 = CHR ''4''" "digit_char 5 = CHR ''5''"
  "digit_char 6 = CHR ''6''" "digit_char 7 = CHR ''7''" "digit_char 8 = CHR ''8''"
  "digit_char 9 = CHR ''9''" "digit_char (Suc 0) = CHR ''1''"
  by code_simp+


section \<open>The file I/O task\<close>

lemma fs_writeFiles_Fulfilled:
  assumes "fs_writeFiles h ps content w = (Fulfilled u, w')"
  shows "w' = (interact h (emit (WriteFiles ps content) w))\<lparr>fs := write_all ps content (fs w)\<rparr>"
    and "\<forall>p\<in>set ps. \<not> fs_fault h (tick w) p"
proof -
  from assms have "filter (fs_fault h (tick w)) ps = []"
    by (auto simp: fs_writeFiles_def Let_def all_settled_def split: list.splits)
  then show nofault: "\<forall>p\<in>set ps. \<not> fs_fault h (tick w) p"
    by (simp add: filter_empty_conv)
  then have "filter (\<lambda>p. \<not> fs_fault h (tick w) p) ps = ps" by simp
  with assms show "w' = (interact h (emit (WriteFiles ps content) w))\<lparr>fs := write_all ps content (fs w)\<rparr>"
    by (simp add: fs_writeFiles_def Let_def)
qed

lemma fs_mkdir_Fulfilled:
  assumes "fs_mkdir h p w = (Fulfilled u, w')"
  shows "w' = (interact h (emit (Mkdir p) w))\<lparr>fs := fold make_dir (dirs [] p) (fs w)\<rparr>"
  using assms by (simp add: fs_mkdir_def Let_def split: if_splits)

lemma fs_rm_Fulfilled:
  assumes "fs_rm h p w = (Fulfilled u, w')"
  shows "w' = (interact h (emit (Rm p) w))\<lparr>fs := remove_tree p (fs w)\<rparr>"
  using assms by (simp add: fs_rm_def Let_def split: if_splits)

lemma fileCount_chunks: "fileCount = 20 * chunkSize"
  by (simp add: fileCount_def chunkSize_def)

lemma chunk_set:
  "b * chunkSize \<le> j \<Longrightarrow> j < b * chunkSize + chunkSize \<Longrightarrow> b < 20
     \<Longrightarrow> file_name d j \<in> set (chunk d (b * chunkSize))"
  by (simp add: chunk_def fileCount_chunks)

lemma writeChunks_batches:
  "writeChunks h d (b * chunkSize) w = (Fulfilled u, w') \<Longrightarrow> b \<le> 20 \<Longrightarrow>
     trace w' = trace w
        @ map (\<lambda>k. WriteFiles (chunk d (k * chunkSize)) (TextFile fileContent)) [b..<20]
     \<and> (\<forall>q. fs w q = Some (TextFile fileContent) \<longrightarrow> fs w' q = Some (TextFile fileContent))
     \<and> (\<forall>j. b * chunkSize \<le> j \<and> j < fileCount
            \<longrightarrow> fs w' (file_name d j) = Some (TextFile fileContent))"
proof (induction "20 - b" arbitrary: b w)
  case 0
  then have b: "b = 20" by simp
  then have "\<not> b * chunkSize < fileCount" by (simp add: fileCount_chunks)
  with 0 b show ?case
    by (subst (asm) writeChunks_unfold) (auto simp: resolve_def fileCount_chunks)
next
  case (Suc n)
  then have b: "b < 20" by simp
  then have lt: "b * chunkSize < fileCount" by (simp add: fileCount_def chunkSize_def)
  from Suc.prems(1) lt obtain w1 where
    1: "fs_writeFiles h (chunk d (b * chunkSize)) (TextFile fileContent) w = (Fulfilled (), w1)"
    and 2: "writeChunks h d (Suc b * chunkSize) w1 = (Fulfilled u, w')"
    by (subst (asm) writeChunks_unfold) (auto elim!: andThen_FulfilledE simp: add.commute)
  have n: "n = 20 - Suc b" using Suc.hyps(2) by simp
  note IH = Suc.hyps(1) [OF n 2]
  have w1: "w1 = (interact h (emit (WriteFiles (chunk d (b * chunkSize)) (TextFile fileContent)) w))
               \<lparr>fs := write_all (chunk d (b * chunkSize)) (TextFile fileContent) (fs w)\<rparr>"
    by (rule fs_writeFiles_Fulfilled [OF 1])
  have upt: "[b..<20] = b # [Suc b..<20]" using b by (simp add: upt_conv_Cons)
  have tr: "trace w' = trace w
        @ map (\<lambda>k. WriteFiles (chunk d (k * chunkSize)) (TextFile fileContent)) [b..<20]"
    using IH b unfolding upt by (simp add: w1)
  have keep: "\<forall>q. fs w q = Some (TextFile fileContent) \<longrightarrow> fs w' q = Some (TextFile fileContent)"
    using IH b by (simp add: w1 write_all_def)
  have new: "fs w' (file_name d j) = Some (TextFile fileContent)"
    if "b * chunkSize \<le> j" "j < fileCount" for j
  proof (cases "j < b * chunkSize + chunkSize")
    case True
    then have "file_name d j \<in> set (chunk d (b * chunkSize))"
      using that b by (intro chunk_set) simp_all
    then have "fs w1 (file_name d j) = Some (TextFile fileContent)"
      by (simp add: w1 write_all_def)
    then show ?thesis using IH b by simp
  next
    case False
    then have "Suc b * chunkSize \<le> j" by simp
    then show ?thesis using IH b that by simp
  qed
  show ?case using tr keep new by blast
qed

lemma concat_chunks:
  "concat (map (\<lambda>b. map f [b * c..<b * c + c]) [0..<n]) = map f [0..<n * c]"
proof (induction n)
  case 0
  then show ?case by simp
next
  case (Suc n)
  have "[0..<n * c + c] = [0..<n * c] @ [n * c..<n * c + c]"
    by (metis le_add1 upt_add_eq_append zero_le)
  then show ?case using Suc by (simp add: add.commute)
qed

lemma chunk_eq: "b < 20 \<Longrightarrow> chunk d (b * chunkSize) = map (file_name d) [b * chunkSize..<b * chunkSize + chunkSize]"
  by (simp add: chunk_def fileCount_chunks min_def)

lemma chunks_cover:
  "concat (map (\<lambda>b. chunk d (b * chunkSize)) [0..<20]) = map (file_name d) [0..<fileCount]"
proof -
  have "map (\<lambda>b. chunk d (b * chunkSize)) [0..<20]
        = map (\<lambda>b. map (file_name d) [b * chunkSize..<b * chunkSize + chunkSize]) [0..<20]"
    by (rule map_cong) (simp_all add: chunk_eq)
  then have "concat (map (\<lambda>b. chunk d (b * chunkSize)) [0..<20])
        = concat (map (\<lambda>b. map (file_name d) [b * chunkSize..<b * chunkSize + chunkSize]) [0..<20])"
    by (rule arg_cong)
  also have "\<dots> = map (file_name d) [0..<20 * chunkSize]"
    by (rule concat_chunks)
  finally show ?thesis by (simp only: fileCount_chunks)
qed

lemma distinct_file_names: "distinct (map (file_name d) [0..<n])"
  by (simp add: distinct_map inj_on_def file_name_inj)

lemma runFileIoTest_Fulfilled:
  assumes "runFileIoTest h runTempDir w = (Fulfilled r, w')"
  obtains w1 w2 w3 createStart createEnd deleteStart deleteEnd where
    "fs_mkdir h (path_join runTempDir ''temp_files'') (interact h (interact h (interact h (interact h w))))
       = (Fulfilled (), w1)"
    "writeChunks h (path_join runTempDir ''temp_files'') 0 w1 = (Fulfilled (), w2)"
    "fs_rm h (path_join runTempDir ''temp_files'') (interact h (interact h w2)) = (Fulfilled (), w3)"
    "w' = interact h (interact h (interact h (interact h w3)))"
    "createStart = of_nat (clock (interact h (interact h (interact h (interact h w))))) / 1000"
    "createEnd = of_nat (clock (interact h w2)) / 1000"
    "deleteStart = of_nat (clock (interact h (interact h w2))) / 1000"
    "deleteEnd = of_nat (clock (interact h w3)) / 1000"
    "amountOfProcessedItems r = Present fileCount"
    "subTasks r = Present [(''createFiles'', toFixed2 ((createEnd - createStart) / 1000)),
                           (''deleteFiles'', toFixed2 ((deleteEnd - deleteStart) / 1000))]"
  using assms
  by (auto simp: runFileIoTest_def Let_def resolve_def getMemoryUsage_eq getCpuUsage_def
      elim!: andThen_FulfilledE)

text \<open>
  Claim C7. When the file I/O task completes, it has made its directory under the scratch
  directory of the run, written \<open>fileCount = 10000\<close> files of 10000 characters each in 20
  batches of \<open>chunkSize = 500\<close> files, every batch awaited before the next one starts (the
  names are pairwise distinct, and every file is there after the last batch), and then
  removed the directory: nothing is left at or below it. The result counts
  \<open>fileCount\<close> items, and its two sub-task durations are not negative.
\<close>

theorem file_io_task:
  assumes "runFileIoTest h runTempDir w = (Fulfilled r, w')"
    and "tempDir = path_join runTempDir ''temp_files''"
  shows "(\<exists>w1 w2.
            writeChunks h tempDir 0 w1 = (Fulfilled (), w2)
          \<and> trace w1 = trace w @ [Mkdir tempDir]
          \<and> trace w2 = trace w1
               @ map (\<lambda>b. WriteFiles (chunk tempDir (b * chunkSize)) (TextFile fileContent)) [0..<20]
          \<and> (\<forall>j<fileCount. fs w2 (file_name tempDir j) = Some (TextFile fileContent))
          \<and> trace w' = trace w2 @ [Rm tempDir])
       \<and> concat (map (\<lambda>b. chunk tempDir (b * chunkSize)) [0..<20])
            = map (file_name tempDir) [0..<fileCount]
       \<and> distinct (map (file_name tempDir) [0..<fileCount])
       \<and> (\<forall>b<20. length (chunk tempDir (b * chunkSize)) = chunkSize)
       \<and> fileCount = 10000 \<and> chunkSize = 500 \<and> length fileContent = 10000
       \<and> (\<forall>j. is_within tempDir (file_name tempDir j))
       \<and> (\<forall>q. is_within tempDir q \<longrightarrow> fs w' q = None)
       \<and> amountOfProcessedItems r = Present fileCount
       \<and> (\<exists>c d. subTasks r = Present [(''createFiles'', c), (''deleteFiles'', d)]
               \<and> 0 \<le> c \<and> 0 \<le> d)"
proof -
  from assms(1) obtain w1 w2 w3 createStart createEnd deleteStart deleteEnd where
    mk: "fs_mkdir h tempDir (interact h (interact h (interact h (interact h w)))) = (Fulfilled (), w1)"
    and wr: "writeChunks h tempDir 0 w1 = (Fulfilled (), w2)"
    and rm: "fs_rm h tempDir (interact h (interact h w2)) = (Fulfilled (), w3)"
    and w': "w' = interact h (interact h (interact h (interact h w3)))"
    and cs: "createStart = of_nat (clock (interact h (interact h (interact h (interact h w))))) / 1000"
    and ce: "createEnd = of_nat (clock (interact h w2)) / 1000"
    and ds: "deleteStart = of_nat (clock (interact h (interact h w2))) / 1000"
    and de: "deleteEnd = of_nat (clock (interact h w3)) / 1000"
    and items: "amountOfProcessedItems r = Present fileCount"
    and subs: "subTasks r = Present [(''createFiles'', toFixed2 ((createEnd - createStart) / 1000)),
                           (''deleteFiles'', toFixed2 ((deleteEnd - deleteStart) / 1000))]"
    unfolding assms(2) by (rule runFileIoTest_Fulfilled)
  have t1: "trace w1 = trace w @ [Mkdir tempDir]"
    using fs_mkdir_Fulfilled [OF mk] by simp
  have wr0: "writeChunks h tempDir (0 * chunkSize) w1 = (Fulfilled (), w2)"
    using wr by simp
  note batches = writeChunks_batches [OF wr0]
  have t2: "trace w2 = trace w1
               @ map (\<lambda>b. WriteFiles (chunk tempDir (b * chunkSize)) (TextFile fileContent)) [0..<20]"
    using batches by blast
  have files: "\<forall>j<fileCount. fs w2 (file_name tempDir j) = Some (TextFile fileContent)"
    using batches by simp
  have w3: "w3 = (interact h (emit (Rm tempDir) (interact h (interact h w2))))
                   \<lparr>fs := remove_tree tempDir (fs (interact h (interact h w2)))\<rparr>"
    by (rule fs_rm_Fulfilled [OF rm])
  have t3: "trace w' = trace w2 @ [Rm tempDir]"
    by (simp add: w' w3)
  have gone: "\<forall>q. is_within tempDir q \<longrightarrow> fs w' q = None"
    by (simp add: w' w3 remove_tree_def)
  have c1: "clock (interact h (interact h (interact h (interact h w)))) \<le> clock w1"
    by (rule adds_clock [OF adds_fs_mkdir [where P = "\<lambda>_. True"] mk]) simp
  have c2: "clock w1 \<le> clock w2"
    by (rule adds_clock [OF task_event_writeChunks wr])
  have c3: "clock (interact h (interact h w2)) \<le> clock w3"
    by (rule adds_clock [OF adds_fs_rm [where P = "\<lambda>_. True"] rm]) simp
  have "createStart \<le> createEnd"
    using c1 c2 unfolding cs ce by (simp add: divide_right_mono)
  then have created: "0 \<le> toFixed2 ((createEnd - createStart) / 1000)"
    by (intro toFixed2_nonneg) simp
  have "deleteStart \<le> deleteEnd"
    using c3 unfolding ds de by (simp add: divide_right_mono)
  then have deleted: "0 \<le> toFixed2 ((deleteEnd - deleteStart) / 1000)"
    by (intro toFixed2_nonneg) simp
  have len: "\<forall>b<20. length (chunk tempDir (b * chunkSize)) = chunkSize"
    by (simp add: chunk_eq)
  have phases: "\<exists>w1 w2.
            writeChunks h tempDir 0 w1 = (Fulfilled (), w2)
          \<and> trace w1 = trace w @ [Mkdir tempDir]
          \<and> trace w2 = trace w1
               @ map (\<lambda>b. WriteFiles (chunk tempDir (b * chunkSize)) (TextFile fileContent)) [0..<20]
          \<and> (\<forall>j<fileCount. fs w2 (file_name tempDir j) = Some (TextFile fileContent))
          \<and> trace w' = trace w2 @ [Rm tempDir]"
    using wr t1 t2 files t3 by blast
  have durations: "\<exists>c d. subTasks r = Present [(''createFiles'', c), (''deleteFiles'', d)]
               \<and> 0 \<le> c \<and> 0 \<le> d"
    using subs created deleted by blast
  have sizes: "fileCount = 10000" "chunkSize = 500" "length fileContent = 10000"
    by (simp_all add: fileCount_def chunkSize_def fileContent_def)
  show ?thesis
    by (intro conjI phases chunks_cover distinct_file_names len sizes gone items durations
        allI is_within_file_name)
qed

theorem file_io_task_witness:
  "\<exists>r w'. runFileIoTest host0 ''benchmark-me/temp-1'' world0 = (Fulfilled r, w')
     \<and> amountOfProcessedItems r = Present fileCount
     \<and> fs w' ''benchmark-me/temp-1/temp_files'' = None
     \<and> fs w' ''benchmark-me/temp-1/temp_files/file-9999.txt'' = None"
proof -
  from succeedsD [OF succeeds_runFileIoTest [OF calm_host0]]
  obtain r w' where run: "runFileIoTest host0 ''benchmark-me/temp-1'' world0 = (Fulfilled r, w')"
    by blast
  have dir: "''benchmark-me/temp-1/temp_files'' = path_join ''benchmark-me/temp-1'' ''temp_files''"
    by (simp add: path_join_def)
  note t = file_io_task [OF run dir]
  have "is_within ''benchmark-me/temp-1/temp_files'' ''benchmark-me/temp-1/temp_files''"
    and "is_within ''benchmark-me/temp-1/temp_files'' ''benchmark-me/temp-1/temp_files/file-9999.txt''"
    by (simp_all add: is_within_def)
  with t run show ?thesis by blast
qed

section \<open>The image processing task\<close>

lemma sharp_create_all_Fulfilled:
  assumes "sharp_create_all h ps w = (Fulfilled u, w')"
  shows "w' = (interact h (emit (SharpCreate ps) w))\<lparr>fs := write_all ps ImageFile (fs w)\<rparr>"
proof -
  from assms have "filter (sharp_fault h (tick w)) ps = []"
    by (auto simp: sharp_create_all_def Let_def all_settled_def split: list.splits)
  then have "\<forall>p\<in>set ps. \<not> sharp_fault h (tick w) p"
    by (simp add: filter_empty_conv)
  then have "filter (\<lambda>p. \<not> sharp_fault h (tick w) p) ps = ps" by simp
  with assms show ?thesis
    by (simp add: sharp_create_all_def Let_def)
qed

lemma sharp_resize_all_Fulfilled:
  assumes "sharp_resize_all h pairs n w = (Fulfilled u, w')"
  shows "w' = (interact h (emit (SharpResize pairs n) w))
                \<lparr>fs := write_all (map snd pairs) ImageFile (fs w)\<rparr>"
proof -
  from assms have "filter (sharp_fault h (tick w)) (map snd pairs) = []"
    by (auto simp: sharp_resize_all_def Let_def all_settled_def split: list.splits)
  then have "\<forall>p\<in>set (map snd pairs). \<not> sharp_fault h (tick w) p"
    by (simp only: filter_empty_conv)
  then have "filter (\<lambda>p. \<not> sharp_fault h (tick w) p) (map snd pairs) = map snd pairs"
    by (simp only: filter_id_conv)
  with assms show ?thesis
    by (simp add: sharp_resize_all_def Let_def)
qed

lemma runImageProcessingTest_Fulfilled:
  assumes "runImageProcessingTest h runTempDir w = (Fulfilled r, w')"
  obtains w1 w2 w3 c d where
    "fs_mkdir h (path_join runTempDir ''temp_images'') (interact h (interact h (interact h (interact h w))))
       = (Fulfilled (), w1)"
    "sharp_create_all h (map (image_name (path_join runTempDir ''temp_images'')) [0..<imageCount]) w1
       = (Fulfilled (), w2)"
    "sharp_resize_all h
       (map (\<lambda>i. (image_name (path_join runTempDir ''temp_images'') i,
                  resized_name (path_join runTempDir ''temp_images'') i)) [0..<imageCount])
       resizeWidth (interact h (interact h w2)) = (Fulfilled (), w3)"
    "w' = interact h (interact h (interact h (interact h w3)))"
    "amountOfProcessedItems r = Present imageCount"
    "subTasks r = Present [(''generateImages'', c), (''resizeImages'', d)]"
  using assms
  by (auto simp: runImageProcessingTest_def Let_def resolve_def getMemoryUsage_eq getCpuUsage_def
      elim!: andThen_FulfilledE)

text \<open>
  Claim C6, amended. When the image processing task completes (so every transform of the
  image library went through), its result counts \<open>imageCount = 200\<close> items, its sub-tasks
  are \<open>generateImages\<close> and \<open>resizeImages\<close> in that order, and the \<open>imageCount\<close> resized files,
  whose names are pairwise distinct, are all there. (The claim names the first key
  \<open>createImages\<close>; the script writes \<open>generateImages\<close>.)
\<close>

theorem image_processing_task:
  assumes "runImageProcessingTest h runTempDir w = (Fulfilled r, w')"
    and "tempDir = path_join runTempDir ''temp_images''"
  shows "amountOfProcessedItems r = Present imageCount \<and> imageCount = 200
       \<and> (\<exists>c d. subTasks r = Present [(''generateImages'', c), (''resizeImages'', d)])
       \<and> trace w' = trace w @
           [Mkdir tempDir,
            SharpCreate (map (image_name tempDir) [0..<imageCount]),
            SharpResize (map (\<lambda>i. (image_name tempDir i, resized_name tempDir i)) [0..<imageCount])
              resizeWidth]
       \<and> (\<forall>i<imageCount. fs w' (resized_name tempDir i) = Some ImageFile)
       \<and> distinct (map (resized_name tempDir) [0..<imageCount])
       \<and> card (resized_name tempDir ` {..<imageCount}) = imageCount"
proof -
  from assms(1) obtain w1 w2 w3 c d where
    mk: "fs_mkdir h tempDir (interact h (interact h (interact h (interact h w)))) = (Fulfilled (), w1)"
    and cr: "sharp_create_all h (map (image_name tempDir) [0..<imageCount]) w1 = (Fulfilled (), w2)"
    and rs: "sharp_resize_all h
       (map (\<lambda>i. (image_name tempDir i, resized_name tempDir i)) [0..<imageCount])
       resizeWidth (interact h (interact h w2)) = (Fulfilled (), w3)"
    and w': "w' = interact h (interact h (interact h (interact h w3)))"
    and items: "amountOfProcessedItems r = Present imageCount"
    and subs: "subTasks r = Present [(''generateImages'', c), (''resizeImages'', d)]"
    unfolding assms(2) by (rule runImageProcessingTest_Fulfilled)
  note w1 = fs_mkdir_Fulfilled [OF mk]
  note w2 = sharp_create_all_Fulfilled [OF cr]
  note w3 = sharp_resize_all_Fulfilled [OF rs]
  have tr: "trace w' = trace w @
           [Mkdir tempDir,
            SharpCreate (map (image_name tempDir) [0..<imageCount]),
            SharpResize (map (\<lambda>i. (image_name tempDir i, resized_name tempDir i)) [0..<imageCount])
              resizeWidth]"
    by (simp add: w' w3 w2 w1)
  have "resized_name tempDir i
          \<in> set (map snd (map (\<lambda>i. (image_name tempDir i, resized_name tempDir i)) [0..<imageCount]))"
    if "i < imageCount" for i
    using that by (simp add: comp_def)
  then have files: "\<forall>i<imageCount. fs w' (resized_name tempDir i) = Some ImageFile"
    by (simp add: w' w3 write_all_def del: set_map map_map)
  have inj: "inj_on (resized_name tempDir) A" for A
    by (simp add: inj_on_def resized_name_inj)
  have dist: "distinct (map (resized_name tempDir) [0..<imageCount])"
    by (simp add: distinct_map inj)
  have card: "card (resized_name tempDir ` {..<imageCount}) = imageCount"
    by (simp add: card_image inj)
  have n: "imageCount = 200" by (simp add: imageCount_def)
  have keys: "\<exists>c d. subTasks r = Present [(''generateImages'', c), (''resizeImages'', d)]"
    using subs by blast
  show ?thesis
    by (intro conjI items n keys tr files dist card)
qed

theorem image_processing_task_witness:
  "\<exists>r w'. runImageProcessingTest host0 ''benchmark-me/temp-1'' world0 = (Fulfilled r, w')
     \<and> amountOfProcessedItems r = Present 200
     \<and> fs w' ''benchmark-me/temp-1/temp_images/image-199-resized.jpg'' = Some ImageFile"
proof -
  from succeedsD [OF succeeds_runImageProcessingTest [OF calm_host0]]
  obtain r w' where
    run: "runImageProcessingTest host0 ''benchmark-me/temp-1'' world0 = (Fulfilled r, w')"
    by blast
  have dir: "''benchmark-me/temp-1/temp_images'' = path_join ''benchmark-me/temp-1'' ''temp_images''"
    by (simp add: path_join_def)
  note t = image_processing_task [OF run dir]
  have d199: "decimal 199 = ''199''"
    by code_simp
  have name: "resized_name ''benchmark-me/temp-1/temp_images'' 199
                = ''benchmark-me/temp-1/temp_images/image-199-resized.jpg''"
    by (simp add: resized_name_def path_join_def d199)
  have items: "amountOfProcessedItems r = Present imageCount"
    by (rule t [THEN conjunct1])
  have "\<forall>i<imageCount. fs w' (resized_name ''benchmark-me/temp-1/temp_images'' i) = Some ImageFile"
    by (rule t [THEN conjunct2, THEN conjunct2, THEN conjunct2, THEN conjunct2, THEN conjunct1])
  then have "fs w' (resized_name ''benchmark-me/temp-1/temp_images'' 199) = Some ImageFile"
    by (simp add: imageCount_def)
  then show ?thesis using run items unfolding name by (simp add: imageCount_def)
qed

theorem image_subtask_keys_counterexample:
  "\<exists>r w'. runImageProcessingTest host0 ''benchmark-me/temp-1'' world0 = (Fulfilled r, w')
     \<and> (\<forall>c d. subTasks r \<noteq> Present [(''createImages'', c), (''resizeImages'', d)])"
proof -
  from succeedsD [OF succeeds_runImageProcessingTest [OF calm_host0]]
  obtain r w' where
    run: "runImageProcessingTest host0 ''benchmark-me/temp-1'' world0 = (Fulfilled r, w')"
    by blast
  from run have "\<exists>c d. subTasks r = Present [(''generateImages'', c), (''resizeImages'', d)]"
    by (rule runImageProcessingTest_Fulfilled) blast
  then have "\<forall>c d. subTasks r \<noteq> Present [(''createImages'', c), (''resizeImages'', d)]"
    by auto
  with run show ?thesis by blast
qed

section \<open>The memory readings of a result\<close>

lemma getMemoryUsage_used:
  "getMemoryUsage h w = (Fulfilled m, w') \<Longrightarrow> used m = used_at h (tick w) \<and> w' = interact h w"
  by (auto simp: getMemoryUsage_eq used_at_def)

lemma getMemoryUsage_at:
  "getMemoryUsage h w =
     (Fulfilled \<lparr>total = of_nat (os_totalmem h (tick w)) / (1024 * 1024),
                 free = of_nat (os_freemem h (tick w)) / (1024 * 1024),
                 used = used_at h (tick w)\<rparr>,
      interact h w)"
  by (simp add: getMemoryUsage_eq used_at_def)

lemma onClose_memory:
  assumes "onClose h cmd args startMem startCpu startTime c code w = (Fulfilled r, w')"
  shows "startMemory_MB r = used startMem" "endMemory_MB r = used_at h (tick w + 1)"
    "tick w' = tick w + 3" "memoryUsage_MB r = toFixed2 (endMemory_MB r - startMemory_MB r)"
  using assms
  by (auto simp: onClose_def andThen_def getMemoryUsage_at getCpuUsage_def resolve_def)

lemma deliver_memory:
  "deliver h killSignal (onClose h cmd args startMem startCpu startTime) es c w = (Fulfilled r, w')
   \<Longrightarrow> startMemory_MB r = used startMem
     \<and> endMemory_MB r = used_at h (tick w + length (chunks_of es) + 2)
     \<and> tick w' = tick w + length (chunks_of es) + 4
     \<and> memoryUsage_MB r = toFixed2 (endMemory_MB r - startMemory_MB r)"
proof (induction es arbitrary: c w)
  case Nil
  then show ?case by simp
next
  case (Cons e es)
  have chunk: ?case
    if "deliver h killSignal (onClose h cmd args startMem startCpu startTime) es c' w1 = (Fulfilled r, w')"
      and "tick w1 = tick w + 1" and "chunks_of (e # es) = d # chunks_of es" for c' w1 d
    using Cons.IH [OF that(1)] that(2,3) by simp
  show ?case
  proof (cases e)
    case (Stdout d)
    with Cons.prems show ?thesis
      by (intro chunk [where d = d]) (auto simp: handleOutput_eq split: if_splits)
  next
    case (Stderr d)
    with Cons.prems show ?thesis
      by (intro chunk [where d = d]) (auto simp: handleOutput_eq split: if_splits)
  next
    case (Close code)
    with Cons.prems have "onClose h cmd args startMem startCpu startTime c code (interact h w)
        = (Fulfilled r, w')" by simp
    from onClose_memory [OF this] Close show ?thesis by simp
  next
    case (Error err)
    with Cons.prems show ?thesis by simp
  qed
qed

lemma measurePerformance_memory:
  assumes "measurePerformance h cmd args killSignal w = (Fulfilled r, w')"
  shows "sampled h (tick w) w' r"
    and "endMemory_MB r = used_at h (tick w + 6 + length (chunks_of (child h (tick w + 3))))"
    and "tick w' = tick w + 8 + length (chunks_of (child h (tick w + 3)))"
proof -
  note d = deliver_memory [OF assms [unfolded measurePerformance_unfold]]
  show e: "endMemory_MB r = used_at h (tick w + 6 + length (chunks_of (child h (tick w + 3))))"
    using d by (simp add: eval_nat_numeral)
  show t: "tick w' = tick w + 8 + length (chunks_of (child h (tick w + 3)))"
    using d by (simp add: eval_nat_numeral)
  have "startMemory_MB r = used_at h (tick w)"
    using d by (simp add: used_at_def)
  moreover have "memoryUsage_MB r = toFixed2 (endMemory_MB r - startMemory_MB r)"
    using d by blast
  moreover have "\<exists>t1. tick w < t1 \<and> tick w' = t1 + 2 \<and> endMemory_MB r = used_at h t1"
    using e t by (intro exI [of _ "tick w + 6 + length (chunks_of (child h (tick w + 3)))"]) simp
  ultimately show "sampled h (tick w) w' r" by (simp add: sampled_def)
qed

lemma runHeavyScript_memory:
  assumes "runHeavyScript h w = (Fulfilled r, w')"
  shows "sampled h (tick w + 1) w' r" and "tick w' = tick w + 6"
proof -
  from assms have f: "startMemory_MB r = used_at h (tick w + 1)"
    "endMemory_MB r = used_at h (tick w + 4)" "tick w' = tick w + 6"
    "memoryUsage_MB r = toFixed2 (endMemory_MB r - startMemory_MB r)"
    by (auto simp: runHeavyScript_def Let_def resolve_def getMemoryUsage_at getCpuUsage_def
        eval_nat_numeral elim!: andThen_FulfilledE)
  show "tick w' = tick w + 6" by fact
  have "\<exists>t1. tick w + 1 < t1 \<and> tick w' = t1 + 2 \<and> endMemory_MB r = used_at h t1"
    using f by (intro exI [of _ "tick w + 4"]) simp
  with f show "sampled h (tick w + 1) w' r" by (simp add: sampled_def)
qed

lemma writeChunks_tick:
  "writeChunks h d (b * chunkSize) w = (Fulfilled u, w') \<Longrightarrow> b \<le> 20 \<Longrightarrow>
     tick w' = tick w + (20 - b)"
proof (induction "20 - b" arbitrary: b w)
  case 0
  then have b: "b = 20" by simp
  then have "\<not> b * chunkSize < fileCount" by (simp add: fileCount_chunks)
  with 0 b show ?case
    by (subst (asm) writeChunks_unfold) (auto simp: resolve_def fileCount_chunks)
next
  case (Suc n)
  then have b: "b < 20" by simp
  then have lt: "b * chunkSize < fileCount" by (simp add: fileCount_def chunkSize_def)
  from Suc.prems(1) lt obtain w1 where
    1: "fs_writeFiles h (chunk d (b * chunkSize)) (TextFile fileContent) w = (Fulfilled (), w1)"
    and 2: "writeChunks h d (Suc b * chunkSize) w1 = (Fulfilled u, w')"
    by (subst (asm) writeChunks_unfold) (auto elim!: andThen_FulfilledE simp: add.commute)
  have n: "n = 20 - Suc b" using Suc.hyps(2) by simp
  have "tick w' = tick w1 + (20 - Suc b)"
    using Suc.hyps(1) [OF n 2] b by simp
  moreover have "tick w1 = tick w + 1"
    using fs_writeFiles_Fulfilled(1) [OF 1] by simp
  ultimately show ?case using b by simp
qed

lemma timed_delete_tick:
  assumes "timed_delete h d w = (Fulfilled x, w')"
  shows "tick w < tick w'"
  using assms
  by (auto simp: timed_delete_def directoryExists_def resolve_def
      elim!: andThen_FulfilledE dest!: fs_rm_Fulfilled split: if_splits)

lemma runFileIoTest_memory:
  assumes "runFileIoTest h dir w = (Fulfilled r, w')"
  shows "sampled h (tick w + 1) w' r"
proof -
  from assms obtain w1 w2 w3 where
    mk: "fs_mkdir h (path_join dir ''temp_files'') (interact h (interact h (interact h (interact h w))))
       = (Fulfilled (), w1)"
    and wr: "writeChunks h (path_join dir ''temp_files'') 0 w1 = (Fulfilled (), w2)"
    and rm: "fs_rm h (path_join dir ''temp_files'') (interact h (interact h w2)) = (Fulfilled (), w3)"
    and w': "w' = interact h (interact h (interact h (interact h w3)))"
    and f: "startMemory_MB r = used_at h (tick w + 1)"
      "endMemory_MB r = used_at h (tick w3 + 2)"
      "memoryUsage_MB r = toFixed2 (endMemory_MB r - startMemory_MB r)"
    by (auto simp: runFileIoTest_def Let_def resolve_def getMemoryUsage_at getCpuUsage_def
        eval_nat_numeral elim!: andThen_FulfilledE)
  have "writeChunks h (path_join dir ''temp_files'') (0 * chunkSize) w1 = (Fulfilled (), w2)"
    using wr by simp
  from writeChunks_tick [OF this] have t2: "tick w2 = tick w1 + 20" by simp
  have t1: "tick w1 = tick w + 5" using fs_mkdir_Fulfilled [OF mk] by simp
  have t3: "tick w3 = tick w2 + 3" using fs_rm_Fulfilled [OF rm] by simp
  have "\<exists>t1. tick w + 1 < t1 \<and> tick w' = t1 + 2 \<and> endMemory_MB r = used_at h t1"
    using f(2) t1 t2 t3 by (intro exI [of _ "tick w3 + 2"]) (simp add: w')
  with f show ?thesis by (simp add: sampled_def)
qed

lemma runImageProcessingTest_memory:
  assumes "runImageProcessingTest h dir w = (Fulfilled r, w')"
  shows "sampled h (tick w + 1) w' r"
proof -
  from assms obtain w1 w2 w3 ps qs where
    mk: "fs_mkdir h (path_join dir ''temp_images'') (interact h (interact h (interact h (interact h w))))
       = (Fulfilled (), w1)"
    and cr: "sharp_create_all h ps w1 = (Fulfilled (), w2)"
    and rs: "sharp_resize_all h qs resizeWidth (interact h (interact h w2)) = (Fulfilled (), w3)"
    and w': "w' = interact h (interact h (interact h (interact h w3)))"
    and f: "startMemory_MB r = used_at h (tick w + 1)"
      "endMemory_MB r = used_at h (tick w3 + 2)"
      "memoryUsage_MB r = toFixed2 (endMemory_MB r - startMemory_MB r)"
    by (auto simp: runImageProcessingTest_def Let_def resolve_def getMemoryUsage_at getCpuUsage_def
        eval_nat_numeral elim!: andThen_FulfilledE)
  have t1: "tick w1 = tick w + 5" using fs_mkdir_Fulfilled [OF mk] by simp
  have t2: "tick w2 = tick w1 + 1" using sharp_create_all_Fulfilled [OF cr] by simp
  have t3: "tick w3 = tick w2 + 3" using sharp_resize_all_Fulfilled [OF rs] by simp
  have "\<exists>t1. tick w + 1 < t1 \<and> tick w' = t1 + 2 \<and> endMemory_MB r = used_at h t1"
    using f(2) t1 t2 t3 by (intro exI [of _ "tick w3 + 2"]) (simp add: w')
  with f show ?thesis by (simp add: sampled_def)
qed

lemma runCleanInstall_memory:
  assumes "runCleanInstall h useLegacyPeerDeps w = (Fulfilled r, w')"
  shows "sampled h (tick w + 1) w' r"
proof -
  from assms obtain w1 w2 w3 w4 x1 x2 r1 r2 where
    d1: "timed_delete h ''node_modules'' (interact h (interact h (interact h w))) = (Fulfilled x1, w1)"
    and d2: "timed_delete h ''.next'' w1 = (Fulfilled x2, w2)"
    and m1: "measurePerformance h ''npm'' [''cache'', ''clean'', ''--force''] None w2 = (Fulfilled r1, w3)"
    and m2: "measurePerformance h ''npm'' (installArgs useLegacyPeerDeps) None w3 = (Fulfilled r2, w4)"
    and w': "w' = interact h (interact h (interact h w4))"
    and f: "startMemory_MB r = used_at h (tick w + 1)"
      "endMemory_MB r = used_at h (tick w4 + 1)"
      "memoryUsage_MB r = toFixed2 (endMemory_MB r - startMemory_MB r)"
    by (auto simp: runCleanInstall_def Let_def resolve_def getMemoryUsage_at getCpuUsage_def
        eval_nat_numeral elim!: andThen_FulfilledE)
  have "tick w + 3 < tick w1" using timed_delete_tick [OF d1] by simp
  moreover have "tick w1 < tick w2" by (rule timed_delete_tick [OF d2])
  moreover have "tick w2 < tick w3" using measurePerformance_memory(3) [OF m1] by simp
  moreover have "tick w3 < tick w4" using measurePerformance_memory(3) [OF m2] by simp
  ultimately have "\<exists>t1. tick w + 1 < t1 \<and> tick w' = t1 + 2 \<and> endMemory_MB r = used_at h t1"
    using f(2) by (intro exI [of _ "tick w4 + 1"]) (simp add: w')
  with f show ?thesis by (simp add: sampled_def)
qed

lemma runNextBuild_memory:
  assumes "runNextBuild h w = (Fulfilled r, w')"
  shows "\<exists>t0. tick w < t0 \<and> sampled h t0 w' r"
proof -
  from assms obtain w1 w2 b where
    1: "directoryExists h ''.next'' w = (Fulfilled b, w1)"
    and 2: "(if b then fs_rm h ''.next'' else resolve ()) w1 = (Fulfilled (), w2)"
    and 3: "measurePerformance h ''npx'' [''next'', ''build''] None w2 = (Fulfilled r, w')"
    by (auto simp: runNextBuild_def elim!: andThen_FulfilledE)
  have "tick w1 = tick w + 1" using 1 by (auto simp: directoryExists_def)
  moreover have "tick w1 \<le> tick w2"
    using 2 by (auto simp: resolve_def dest!: fs_rm_Fulfilled split: if_splits)
  ultimately have "tick w < tick w2" by simp
  with measurePerformance_memory(1) [OF 3] show ?thesis by blast
qed

lemma used_at_host0: "used_at host0 k = (if k < 3 then 4096 else 1048191 / 256)"
  by (simp add: used_at_def host0_def)

lemma sampled_delta: "sampled h t0 w' r \<Longrightarrow> delta_rounded r"
  by (simp add: sampled_def delta_rounded_def)

text \<open>
  Claim C2. Whatever task completes (a runner on its own, the clean install, the build,
  the type check, the linter, the image processing, the file I/O, the heavy script), the
  memory fields of its result are readings of the host: the start field is the used
  memory \<^verbatim>\<open>getMemoryUsage\<close> computes at the task's first sample (the first interaction of
  a runner, the second of the other tasks), the end field is the used memory at a later
  interaction, the last but one of the task (for a runner: after its child's chunks and
  its close), and the delta is the end field minus the start field, rounded by
  \<^verbatim>\<open>toFixed(2)\<close>: a whole number of hundredths within half a hundredth of the difference.
  Nothing keeps it from being negative.
\<close>

theorem memory_delta_rounded:
  "(measurePerformance h cmd args killSignal w = (Fulfilled r, w') \<longrightarrow>
       sampled h (tick w) w' r
     \<and> endMemory_MB r = used_at h (tick w + 6 + length (chunks_of (child h (tick w + 3))))
     \<and> delta_rounded r)
   \<and> (runCleanInstall h useLegacyPeerDeps w = (Fulfilled r, w') \<longrightarrow>
       sampled h (tick w + 1) w' r \<and> delta_rounded r)
   \<and> (runNextBuild h w = (Fulfilled r, w') \<longrightarrow>
       (\<exists>t0. tick w < t0 \<and> sampled h t0 w' r) \<and> delta_rounded r)
   \<and> (runTypeScriptCheck h w = (Fulfilled r, w') \<longrightarrow> sampled h (tick w) w' r \<and> delta_rounded r)
   \<and> (runLinterTest h w = (Fulfilled r, w') \<longrightarrow> sampled h (tick w) w' r \<and> delta_rounded r)
   \<and> (runImageProcessingTest h dir w = (Fulfilled r, w') \<longrightarrow>
       sampled h (tick w + 1) w' r \<and> delta_rounded r)
   \<and> (runFileIoTest h dir w = (Fulfilled r, w') \<longrightarrow>
       sampled h (tick w + 1) w' r \<and> delta_rounded r)
   \<and> (runHeavyScript h w = (Fulfilled r, w') \<longrightarrow>
       sampled h (tick w + 1) w' r \<and> tick w' = tick w + 6 \<and> delta_rounded r)
   \<and> (getMemoryUsage h w = (Fulfilled m, w1) \<longrightarrow>
       total m = of_nat (os_totalmem h (tick w)) / (1024 * 1024)
     \<and> free m = of_nat (os_freemem h (tick w)) / (1024 * 1024)
     \<and> used m = total m - free m \<and> used m = used_at h (tick w))
   \<and> (\<exists>n::int. toFixed2 x = of_int n / 100) \<and> \<bar>toFixed2 x - x\<bar> \<le> 1 / 200"
proof (intro conjI impI)
  show "\<exists>n::int. toFixed2 x = of_int n / 100" by (rule toFixed2_hundredths)
  show "\<bar>toFixed2 x - x\<bar> \<le> 1 / 200" by (rule toFixed2_close)
next
  assume a: "measurePerformance h cmd args killSignal w = (Fulfilled r, w')"
  show "sampled h (tick w) w' r" by (rule measurePerformance_memory(1) [OF a])
  show "endMemory_MB r = used_at h (tick w + 6 + length (chunks_of (child h (tick w + 3))))"
    by (rule measurePerformance_memory(2) [OF a])
  show "delta_rounded r" by (rule sampled_delta [OF measurePerformance_memory(1) [OF a]])
next
  assume a: "runCleanInstall h useLegacyPeerDeps w = (Fulfilled r, w')"
  show "sampled h (tick w + 1) w' r" by (rule runCleanInstall_memory [OF a])
  then show "delta_rounded r" by (rule sampled_delta)
next
  assume a: "runNextBuild h w = (Fulfilled r, w')"
  show "\<exists>t0. tick w < t0 \<and> sampled h t0 w' r" by (rule runNextBuild_memory [OF a])
  then show "delta_rounded r" using sampled_delta by blast
next
  assume a: "runTypeScriptCheck h w = (Fulfilled r, w')"
  show "sampled h (tick w) w' r"
    by (rule measurePerformance_memory(1) [OF a [unfolded runTypeScriptCheck_def]])
  then show "delta_rounded r" by (rule sampled_delta)
next
  assume a: "runLinterTest h w = (Fulfilled r, w')"
  show "sampled h (tick w) w' r"
    by (rule measurePerformance_memory(1) [OF a [unfolded runLinterTest_def]])
  then show "delta_rounded r" by (rule sampled_delta)
next
  assume a: "runImageProcessingTest h dir w = (Fulfilled r, w')"
  show "sampled h (tick w + 1) w' r" by (rule runImageProcessingTest_memory [OF a])
  then show "delta_rounded r" by (rule sampled_delta)
next
  assume a: "runFileIoTest h dir w = (Fulfilled r, w')"
  show "sampled h (tick w + 1) w' r" by (rule runFileIoTest_memory [OF a])
  then show "delta_rounded r" by (rule sampled_delta)
next
  assume a: "runHeavyScript h w = (Fulfilled r, w')"
  show "sampled h (tick w + 1) w' r" by (rule runHeavyScript_memory(1) [OF a])
  then show "delta_rounded r" by (rule sampled_delta)
  show "tick w' = tick w + 6" by (rule runHeavyScript_memory(2) [OF a])
next
  assume a: "getMemoryUsage h w = (Fulfilled m, w1)"
  then have m: "m = \<lparr>total = of_nat (os_totalmem h (tick w)) / (1024 * 1024),
                 free = of_nat (os_freemem h (tick w)) / (1024 * 1024),
                 used = used_at h (tick w)\<rparr>"
    by (simp add: getMemoryUsage_at)
  show "total m = of_nat (os_totalmem h (tick w)) / (1024 * 1024)" by (simp add: m)
  show "free m = of_nat (os_freemem h (tick w)) / (1024 * 1024)" by (simp add: m)
  show "used m = total m - free m" by (simp add: m used_at_def)
  show "used m = used_at h (tick w)" by (simp add: m)
qed

theorem memory_delta_rounded_witness:
  "\<exists>r w' r2 w2.
       measurePerformance host0 ''npx'' [''tsc'', ''--noEmit''] None world0 = (Fulfilled r, w')
     \<and> startMemory_MB r = 4096 \<and> endMemory_MB r = 1048191 / 256 \<and> memoryUsage_MB r = - 3 / 2
     \<and> runHeavyScript host0 world0 = (Fulfilled r2, w2)
     \<and> startMemory_MB r2 = 4096 \<and> endMemory_MB r2 = 1048191 / 256 \<and> memoryUsage_MB r2 = - 3 / 2"
proof -
  from succeedsD [OF succeeds_measurePerformance [OF calm_host0]] obtain r w' where
    a: "measurePerformance host0 ''npx'' [''tsc'', ''--noEmit''] None world0 = (Fulfilled r, w')"
    by blast
  from succeedsD [OF succeeds_runHeavyScript] obtain r2 w2 where
    b: "runHeavyScript host0 world0 = (Fulfilled r2, w2)"
    by blast
  note t = memory_delta_rounded [of host0 "''npx''" "[''tsc'', ''--noEmit'']" None world0 r w',
      THEN conjunct1, rule_format, OF a]
  have t0: "tick world0 = 0" by (simp add: world0_def)
  have len: "length (chunks_of (child host0 3)) = 1" by (simp add: host0_def)
  have r1: "startMemory_MB r = 4096"
    using t by (simp add: sampled_def t0 used_at_host0)
  have r2: "endMemory_MB r = 1048191 / 256"
    using t by (simp add: t0 len used_at_host0)
  have "memoryUsage_MB r = toFixed2 (endMemory_MB r - startMemory_MB r)"
    by (rule t [THEN conjunct2, THEN conjunct2, unfolded delta_rounded_def])
  also have "\<dots> = toFixed2 (1048191 / 256 - 4096)" by (simp only: r1 r2)
  also have "\<dots> = - 3 / 2" by (rule toFixed2_example)
  finally have r3: "memoryUsage_MB r = - 3 / 2" .
  note u = memory_delta_rounded [of host0 _ _ _ world0 r2 w2,
      THEN conjunct2, THEN conjunct2, THEN conjunct2, THEN conjunct2, THEN conjunct2,
      THEN conjunct2, THEN conjunct2, THEN conjunct1, rule_format, OF b]
  have s1: "startMemory_MB r2 = 4096"
    using u by (simp add: sampled_def t0 used_at_host0)
  have "tick w2 = 6" using u by (simp add: t0)
  then have s2: "endMemory_MB r2 = 1048191 / 256"
    using u by (auto simp: sampled_def used_at_host0)
  have "memoryUsage_MB r2 = toFixed2 (endMemory_MB r2 - startMemory_MB r2)"
    by (rule u [THEN conjunct2, THEN conjunct2, unfolded delta_rounded_def])
  also have "\<dots> = toFixed2 (1048191 / 256 - 4096)" by (simp only: s1 s2)
  also have "\<dots> = - 3 / 2" by (rule toFixed2_example)
  finally have s3: "memoryUsage_MB r2 = - 3 / 2" .
  show ?thesis
    by (rule exI [where x = r], rule exI [where x = w'], rule exI [where x = r2],
        rule exI [where x = w2]) (intro conjI a b r1 r2 r3 s1 s2 s3)
qed


section \<open>The order of the tasks of a run\<close>

lemma beginsI:
  assumes "\<And>w. \<exists>evs. trace (snd (m w)) = trace w @ evs \<and> prefix (begun evs) ks
             \<and> (\<forall>x. fst (m w) = Fulfilled x \<longrightarrow> begun evs = ks)"
  shows "begins ks m"
  using assms by (simp add: begins_def)

lemma beginsD:
  assumes "begins ks m" and "m w = (out, w')"
  obtains evs where "trace w' = trace w @ evs" "prefix (begun evs) ks"
    "\<And>x. out = Fulfilled x \<Longrightarrow> begun evs = ks"
proof -
  from assms(1) obtain evs where
    "trace (snd (m w)) = trace w @ evs \<and> prefix (begun evs) ks
       \<and> (\<forall>x. fst (m w) = Fulfilled x \<longrightarrow> begun evs = ks)"
    unfolding begins_def by blast
  with assms(2) that show thesis by simp
qed

lemma begins_andThen:
  assumes m: "begins k1 m" and f: "\<And>x. begins k2 (f x)"
  shows "begins (k1 @ k2) (andThen m f)"
proof (rule beginsI)
  fix w
  obtain out w1 where mw: "m w = (out, w1)" by (cases "m w")
  from beginsD [OF m mw] obtain e1 where
    e1: "trace w1 = trace w @ e1" "prefix (begun e1) k1" "\<And>x. out = Fulfilled x \<Longrightarrow> begun e1 = k1"
    by blast
  show "\<exists>evs. trace (snd (andThen m f w)) = trace w @ evs \<and> prefix (begun evs) (k1 @ k2)
             \<and> (\<forall>x. fst (andThen m f w) = Fulfilled x \<longrightarrow> begun evs = k1 @ k2)"
  proof (cases out)
    case (Fulfilled x)
    obtain out2 w2 where fw: "f x w1 = (out2, w2)" by (cases "f x w1")
    from beginsD [OF f fw] obtain e2 where
      e2: "trace w2 = trace w1 @ e2" "prefix (begun e2) k2"
        "\<And>y. out2 = Fulfilled y \<Longrightarrow> begun e2 = k2"
      by blast
    have "trace w2 = trace w @ (e1 @ e2)" using e1 e2 by simp
    moreover have "prefix (begun (e1 @ e2)) (k1 @ k2)"
      using e1(3) [OF Fulfilled] e2(2) by simp
    moreover have "\<forall>y. out2 = Fulfilled y \<longrightarrow> begun (e1 @ e2) = k1 @ k2"
      using e1(3) [OF Fulfilled] e2(3) by simp
    ultimately show ?thesis
      using mw Fulfilled fw by (auto simp: andThen_def)
  next
    case (Rejected e)
    have "prefix (begun e1) (k1 @ k2)" using e1(2) by (rule prefix_prefix)
    then show ?thesis using mw Rejected e1(1) by (auto simp: andThen_def)
  next
    case Pending
    have "prefix (begun e1) (k1 @ k2)" using e1(2) by (rule prefix_prefix)
    then show ?thesis using mw Pending e1(1) by (auto simp: andThen_def)
  qed
qed

lemma begun_none: "list_all (\<lambda>e. begun [e] = []) evs \<Longrightarrow> begun evs = []"
  by (induction evs rule: begun.induct) simp_all

lemma begins_none: "adds (\<lambda>e. begun [e] = []) m \<Longrightarrow> begins [] m"
proof (rule beginsI)
  fix w
  assume a: "adds (\<lambda>e. begun [e] = []) m"
  obtain out w' where mw: "m w = (out, w')" by (cases "m w")
  from adds_trace [OF a mw] obtain evs where
    evs: "trace w' = trace w @ evs" "list_all (\<lambda>e. begun [e] = []) evs"
    by blast
  have "begun evs = []" using evs(2) by (rule begun_none)
  with evs(1) mw show "\<exists>evs. trace (snd (m w)) = trace w @ evs \<and> prefix (begun evs) []
             \<and> (\<forall>x. fst (m w) = Fulfilled x \<longrightarrow> begun evs = [])"
    by auto
qed

lemma begins_task: "adds task_event m \<Longrightarrow> begins [] m"
proof (rule begins_none, erule adds_mono)
  fix e assume "task_event e"
  then show "begun [e] = []" by (cases e) simp_all
qed

lemma begins_resolve: "begins [] (resolve x)"
  by (rule begins_task) simp

lemma begins_Begin: "begins [k] (\<lambda>w. (Fulfilled (), emit (Begin k) w))"
  by (rule beginsI) simp

lemma begins_selected:
  assumes "adds task_event task"
  shows "begins (if key \<in> set testsToRun then [key] else []) (selected testsToRun key task bs)"
proof (cases "key \<in> set testsToRun")
  case True
  have "begins ([key] @ [] @ []) (selected testsToRun key task bs)"
    unfolding selected_def using True
    by (simp only: if_True) (intro begins_andThen begins_Begin begins_task assms begins_resolve)
  then show ?thesis using True by simp
next
  case False
  then show ?thesis by (simp add: selected_def begins_resolve)
qed

lemma begins_run:
  "begins (filter (\<lambda>k. k \<in> set testsToRun) catalog) (run h testsToRun useLegacyPeerDeps runCount i)"
proof -
  let ?s = "\<lambda>key. if key \<in> set testsToRun then [key] else []"
  have "begins ([] @ [] @ [] @ [] @ ?s ''cleanInstall'' @ ?s ''nextBuild'' @ ?s ''typeCheck''
          @ ?s ''linter'' @ ?s ''imageProcessing'' @ ?s ''fileIo'' @ ?s ''heavyScript''
          @ [] @ [] @ [] @ [])
          (run h testsToRun useLegacyPeerDeps runCount i)"
    unfolding run_def Let_def
    by (intro begins_andThen begins_selected begins_resolve begins_none
        task_event_runCleanInstall task_event_build task_event_runTypeScriptCheck
        task_event_runLinterTest task_event_runImageProcessingTest task_event_runFileIoTest
        task_event_runHeavyScript adds_Date_now adds_read_systemInfo adds_fs_mkdir
        adds_fs_rm adds_fs_writeFiles) simp_all
  moreover have "filter P (x # xs) = (if P x then [x] else []) @ filter P xs" for P and x :: string and xs
    by simp
  ultimately show ?thesis
    by (simp only: catalog_def append_Nil append_Nil2 filter.simps(1))
qed

lemma selected_Fulfilled:
  assumes "selected testsToRun key task bs w = (Fulfilled bs', w')"
  shows "(key \<notin> set testsToRun \<and> bs' = bs \<and> w' = w)
       \<or> (key \<in> set testsToRun
           \<and> (\<exists>r. task (emit (Begin key) w) = (Fulfilled r, w') \<and> bs' = assign bs key r))"
  using assms
  by (auto simp: selected_def resolve_def andThen_def split: if_splits prod.splits outcome.splits)



lemma run_Fulfilled:
  assumes "run h testsToRun useLegacyPeerDeps runCount i w = (Fulfilled rep, w')"
  obtains w2 info w4 b1 w5 b2 w6 b3 w7 b4 w8 b5 w9 b6 w10 b7 w11 w12 where
    "fs_mkdir h (runTempDir_of h w) (interact h w) = (Fulfilled (), w2)"
    "read_systemInfo h (interact h w2) = (Fulfilled info, w4)"
    "selected testsToRun ''cleanInstall'' (runCleanInstall h useLegacyPeerDeps) [] w4
       = (Fulfilled b1, w5)"
    "selected testsToRun ''nextBuild''
       (andThen (install_before_build h testsToRun useLegacyPeerDeps) (\<lambda>_. runNextBuild h)) b1 w5
       = (Fulfilled b2, w6)"
    "selected testsToRun ''typeCheck'' (runTypeScriptCheck h) b2 w6 = (Fulfilled b3, w7)"
    "selected testsToRun ''linter'' (runLinterTest h) b3 w7 = (Fulfilled b4, w8)"
    "selected testsToRun ''imageProcessing'' (runImageProcessingTest h (runTempDir_of h w)) b4 w8
       = (Fulfilled b5, w9)"
    "selected testsToRun ''fileIo'' (runFileIoTest h (runTempDir_of h w)) b5 w9
       = (Fulfilled b6, w10)"
    "selected testsToRun ''heavyScript'' (runHeavyScript h) b6 w10 = (Fulfilled b7, w11)"
    "rep = \<lparr>scriptVersion = SCRIPT_VERSION, systemInfo = info, benchmarks = b7,
            runNumber = i, totalRuns = runCount,
            runStartTimeUTC = date_now h (tick w2), runEndTimeUTC = date_now h (tick w11)\<rparr>"
    "fs_writeFiles h [resultsPath_of h w] (ReportFile rep) (interact h w11) = (Fulfilled (), w12)"
    "fs_rm h (runTempDir_of h w) w12 = (Fulfilled (), w')"
  using assms
  unfolding run_def Let_def runTempDir_of_def resultsPath_of_def
  by (elim andThen_FulfilledE) (simp add: Date_now_def resolve_def)

lemma map_fst_assign:
  "map fst (assign bs k v) = (if k \<in> set (map fst bs) then map fst bs else map fst bs @ [k])"
  by (induction bs k v rule: assign.induct) force+

lemma set_assign: "set (assign bs k v) \<subseteq> insert (k, v) (set bs)"
  by (induction bs k v rule: assign.induct) auto

lemma selected_keys:
  assumes "selected testsToRun key task bs w = (Fulfilled bs', w')"
    and "key \<notin> set (map fst bs)"
  shows "map fst bs' = map fst bs @ filter (\<lambda>k. k \<in> set testsToRun) [key]"
  using selected_Fulfilled [OF assms(1)] assms(2) by (auto simp: map_fst_assign)

lemma run_keys:
  assumes "run h testsToRun useLegacyPeerDeps runCount i w = (Fulfilled rep, w')"
  shows "map fst (benchmarks rep) = filter (\<lambda>k. k \<in> set testsToRun) catalog"
proof -
  from assms obtain w2 info w4 b1 w5 b2 w6 b3 w7 b4 w8 b5 w9 b6 w10 b7 w11 w12 where
    mk: "fs_mkdir h (runTempDir_of h w) (interact h w) = (Fulfilled (), w2)"
    and si: "read_systemInfo h (interact h w2) = (Fulfilled info, w4)"
    and s1: "selected testsToRun ''cleanInstall'' (runCleanInstall h useLegacyPeerDeps) [] w4
       = (Fulfilled b1, w5)"
    and s2: "selected testsToRun ''nextBuild''
       (andThen (install_before_build h testsToRun useLegacyPeerDeps) (\<lambda>_. runNextBuild h)) b1 w5
       = (Fulfilled b2, w6)"
    and s3: "selected testsToRun ''typeCheck'' (runTypeScriptCheck h) b2 w6 = (Fulfilled b3, w7)"
    and s4: "selected testsToRun ''linter'' (runLinterTest h) b3 w7 = (Fulfilled b4, w8)"
    and s5: "selected testsToRun ''imageProcessing'' (runImageProcessingTest h (runTempDir_of h w)) b4 w8
       = (Fulfilled b5, w9)"
    and s6: "selected testsToRun ''fileIo'' (runFileIoTest h (runTempDir_of h w)) b5 w9
       = (Fulfilled b6, w10)"
    and s7: "selected testsToRun ''heavyScript'' (runHeavyScript h) b6 w10 = (Fulfilled b7, w11)"
    and rep: "rep = \<lparr>scriptVersion = SCRIPT_VERSION, systemInfo = info, benchmarks = b7,
            runNumber = i, totalRuns = runCount,
            runStartTimeUTC = date_now h (tick w2), runEndTimeUTC = date_now h (tick w11)\<rparr>"
    and wf: "fs_writeFiles h [resultsPath_of h w] (ReportFile rep) (interact h w11) = (Fulfilled (), w12)"
    and rm: "fs_rm h (runTempDir_of h w) w12 = (Fulfilled (), w')"
    by (rule run_Fulfilled)
  let ?P = "\<lambda>k. k \<in> set testsToRun"
  have k1: "map fst b1 = filter ?P [''cleanInstall'']"
    using selected_keys [OF s1] by simp
  have k2: "map fst b2 = filter ?P [''cleanInstall'', ''nextBuild'']"
    using selected_keys [OF s2] k1 by simp
  have k3: "map fst b3 = filter ?P [''cleanInstall'', ''nextBuild'', ''typeCheck'']"
    using selected_keys [OF s3] k2 by simp
  have k4: "map fst b4 = filter ?P [''cleanInstall'', ''nextBuild'', ''typeCheck'', ''linter'']"
    using selected_keys [OF s4] k3 by simp
  have k5: "map fst b5 = filter ?P [''cleanInstall'', ''nextBuild'', ''typeCheck'', ''linter'',
              ''imageProcessing'']"
    using selected_keys [OF s5] k4 by simp
  have k6: "map fst b6 = filter ?P [''cleanInstall'', ''nextBuild'', ''typeCheck'', ''linter'',
              ''imageProcessing'', ''fileIo'']"
    using selected_keys [OF s6] k5 by simp
  have k7: "map fst b7 = filter ?P [''cleanInstall'', ''nextBuild'', ''typeCheck'', ''linter'',
              ''imageProcessing'', ''fileIo'', ''heavyScript'']"
    using selected_keys [OF s7] k6 by simp
  show ?thesis using k7 by (simp add: rep catalog_def)
qed

lemma selected_results:
  assumes sel: "selected testsToRun key task bs wa = (Fulfilled bs', wb)"
    and old: "\<forall>k r. (k, r) \<in> set bs \<longrightarrow> Q k r"
    and new: "\<And>r. key \<in> set testsToRun \<Longrightarrow> task (emit (Begin key) wa) = (Fulfilled r, wb) \<Longrightarrow> Q key r"
  shows "\<forall>k r. (k, r) \<in> set bs' \<longrightarrow> Q k r"
proof (intro allI impI)
  fix k r assume kr: "(k, r) \<in> set bs'"
  from selected_Fulfilled [OF sel] show "Q k r"
  proof (elim disjE conjE exE)
    assume "bs' = bs"
    with kr old show ?thesis by blast
  next
    fix r0 assume k: "key \<in> set testsToRun"
      and t: "task (emit (Begin key) wa) = (Fulfilled r0, wb)" and b: "bs' = assign bs key r0"
    from kr b set_assign [of bs key r0] have "(k, r) = (key, r0) \<or> (k, r) \<in> set bs" by auto
    then show ?thesis
    proof
      assume "(k, r) = (key, r0)"
      with new [OF k t] show ?thesis by simp
    next
      assume "(k, r) \<in> set bs"
      with old show ?thesis by blast
    qed
  qed
qed

lemma run_results:
  assumes "run h testsToRun useLegacyPeerDeps runCount i w = (Fulfilled rep, w')"
  shows "\<forall>k r. (k, r) \<in> set (benchmarks rep) \<longrightarrow>
           (\<exists>wa wb. task_of h testsToRun useLegacyPeerDeps (runTempDir_of h w) k (emit (Begin k) wa)
                       = (Fulfilled r, wb)
                  \<and> prefix (trace w) (trace wa) \<and> prefix (trace wb) (trace w'))"
proof -
  from assms obtain w2 info w4 b1 w5 b2 w6 b3 w7 b4 w8 b5 w9 b6 w10 b7 w11 w12 where
    mk: "fs_mkdir h (runTempDir_of h w) (interact h w) = (Fulfilled (), w2)"
    and si: "read_systemInfo h (interact h w2) = (Fulfilled info, w4)"
    and s1: "selected testsToRun ''cleanInstall'' (runCleanInstall h useLegacyPeerDeps) [] w4
       = (Fulfilled b1, w5)"
    and s2: "selected testsToRun ''nextBuild''
       (andThen (install_before_build h testsToRun useLegacyPeerDeps) (\<lambda>_. runNextBuild h)) b1 w5
       = (Fulfilled b2, w6)"
    and s3: "selected testsToRun ''typeCheck'' (runTypeScriptCheck h) b2 w6 = (Fulfilled b3, w7)"
    and s4: "selected testsToRun ''linter'' (runLinterTest h) b3 w7 = (Fulfilled b4, w8)"
    and s5: "selected testsToRun ''imageProcessing'' (runImageProcessingTest h (runTempDir_of h w)) b4 w8
       = (Fulfilled b5, w9)"
    and s6: "selected testsToRun ''fileIo'' (runFileIoTest h (runTempDir_of h w)) b5 w9
       = (Fulfilled b6, w10)"
    and s7: "selected testsToRun ''heavyScript'' (runHeavyScript h) b6 w10 = (Fulfilled b7, w11)"
    and rep: "rep = \<lparr>scriptVersion = SCRIPT_VERSION, systemInfo = info, benchmarks = b7,
            runNumber = i, totalRuns = runCount,
            runStartTimeUTC = date_now h (tick w2), runEndTimeUTC = date_now h (tick w11)\<rparr>"
    and wf: "fs_writeFiles h [resultsPath_of h w] (ReportFile rep) (interact h w11) = (Fulfilled (), w12)"
    and rm: "fs_rm h (runTempDir_of h w) w12 = (Fulfilled (), w')"
    by (rule run_Fulfilled)
  let ?Q = "\<lambda>k r. \<exists>wa wb. task_of h testsToRun useLegacyPeerDeps (runTempDir_of h w) k (emit (Begin k) wa)
                       = (Fulfilled r, wb)
                  \<and> prefix (trace w) (trace wa) \<and> prefix (trace wb) (trace w')"
  note w2 = fs_mkdir_Fulfilled [OF mk]
  have e0: "trace w4 = trace w @ [Mkdir (runTempDir_of h w)]"
    using si by (auto simp: w2 read_systemInfo_def split: list.splits)
  have ext: "\<exists>evs. trace wb = trace wa @ evs"
    if "selected testsToRun key task bs wa = (Fulfilled bs', wb)" "adds task_event task"
    for key task bs wa bs' wb
    using beginsD [OF begins_selected [OF that(2)] that(1)] by metis
  from ext [OF s1 task_event_runCleanInstall] obtain e1 where e1: "trace w5 = trace w4 @ e1" ..
  from ext [OF s2 task_event_build] obtain e2 where e2: "trace w6 = trace w5 @ e2" ..
  from ext [OF s3 task_event_runTypeScriptCheck] obtain e3 where e3: "trace w7 = trace w6 @ e3" ..
  from ext [OF s4 task_event_runLinterTest] obtain e4 where e4: "trace w8 = trace w7 @ e4" ..
  from ext [OF s5 task_event_runImageProcessingTest] obtain e5 where e5: "trace w9 = trace w8 @ e5" ..
  from ext [OF s6 task_event_runFileIoTest] obtain e6 where e6: "trace w10 = trace w9 @ e6" ..
  from ext [OF s7 task_event_runHeavyScript] obtain e7 where e7: "trace w11 = trace w10 @ e7" ..
  note w12 = fs_writeFiles_Fulfilled(1) [OF wf]
  note w'' = fs_rm_Fulfilled [OF rm]
  have e8: "trace w' = trace w11
              @ [WriteFiles [resultsPath_of h w] (ReportFile rep), Rm (runTempDir_of h w)]"
    by (simp add: w'' w12)
  have p4: "prefix (trace w) (trace w4)" by (simp add: e0)
  have p5: "prefix (trace w) (trace w5)" using p4 by (simp add: e1 prefix_prefix)
  have p6: "prefix (trace w) (trace w6)" using p5 by (simp add: e2 prefix_prefix)
  have p7: "prefix (trace w) (trace w7)" using p6 by (simp add: e3 prefix_prefix)
  have p8: "prefix (trace w) (trace w8)" using p7 by (simp add: e4 prefix_prefix)
  have p9: "prefix (trace w) (trace w9)" using p8 by (simp add: e5 prefix_prefix)
  have p10: "prefix (trace w) (trace w10)" using p9 by (simp add: e6 prefix_prefix)
  have q11: "prefix (trace w11) (trace w')" by (simp add: e8)
  have q10: "prefix (trace w10) (trace w')" using q11 by (simp add: e7 append_prefixD)
  have q9: "prefix (trace w9) (trace w')" using q10 by (simp add: e6 append_prefixD)
  have q8: "prefix (trace w8) (trace w')" using q9 by (simp add: e5 append_prefixD)
  have q7: "prefix (trace w7) (trace w')" using q8 by (simp add: e4 append_prefixD)
  have q6: "prefix (trace w6) (trace w')" using q7 by (simp add: e3 append_prefixD)
  have q5: "prefix (trace w5) (trace w')" using q6 by (simp add: e2 append_prefixD)
  have r0: "\<forall>k r. (k, r) \<in> set [] \<longrightarrow> ?Q k r" by simp
  have r1: "\<forall>k r. (k, r) \<in> set b1 \<longrightarrow> ?Q k r"
    by (rule selected_results [OF s1 r0]) (use p4 q5 in \<open>auto simp: task_of_def\<close>)
  have r2: "\<forall>k r. (k, r) \<in> set b2 \<longrightarrow> ?Q k r"
    by (rule selected_results [OF s2 r1]) (use p5 q6 in \<open>auto simp: task_of_def\<close>)
  have r3: "\<forall>k r. (k, r) \<in> set b3 \<longrightarrow> ?Q k r"
    by (rule selected_results [OF s3 r2]) (use p6 q7 in \<open>auto simp: task_of_def\<close>)
  have r4: "\<forall>k r. (k, r) \<in> set b4 \<longrightarrow> ?Q k r"
    by (rule selected_results [OF s4 r3]) (use p7 q8 in \<open>auto simp: task_of_def\<close>)
  have r5: "\<forall>k r. (k, r) \<in> set b5 \<longrightarrow> ?Q k r"
    by (rule selected_results [OF s5 r4]) (use p8 q9 in \<open>auto simp: task_of_def\<close>)
  have r6: "\<forall>k r. (k, r) \<in> set b6 \<longrightarrow> ?Q k r"
    by (rule selected_results [OF s6 r5]) (use p9 q10 in \<open>auto simp: task_of_def\<close>)
  have r7: "\<forall>k r. (k, r) \<in> set b7 \<longrightarrow> ?Q k r"
    by (rule selected_results [OF s7 r6]) (use p10 q11 in \<open>auto simp: task_of_def\<close>)
  then show ?thesis by (simp add: rep)
qed

text \<open>
  Claim C5. Whatever the list of selected tasks (in any order, with repetitions or unknown
  keys), a run begins the selected tasks in the order of the catalog: the tasks begun are
  an initial segment of the catalog filtered by the selection, and all of it when the run
  completes, in which case the report holds their results in the same order, and the result
  stored under a key is the one the task function of that key returned, that function
  having run within this run, right after the task began. With the install and the build
  both selected, the install comes first and the build next.
\<close>

theorem catalog_order:
  "(\<exists>evs. trace (snd (run h testsToRun useLegacyPeerDeps runCount i w)) = trace w @ evs
        \<and> prefix (begun evs) (filter (\<lambda>k. k \<in> set testsToRun) catalog)
        \<and> (\<forall>rep. fst (run h testsToRun useLegacyPeerDeps runCount i w) = Fulfilled rep \<longrightarrow>
               begun evs = filter (\<lambda>k. k \<in> set testsToRun) catalog
             \<and> map fst (benchmarks rep) = filter (\<lambda>k. k \<in> set testsToRun) catalog
             \<and> (\<forall>k r. (k, r) \<in> set (benchmarks rep) \<longrightarrow>
                  (\<exists>wa wb. task_of h testsToRun useLegacyPeerDeps (runTempDir_of h w) k
                              (emit (Begin k) wa) = (Fulfilled r, wb)
                     \<and> prefix (trace w) (trace wa)
                     \<and> prefix (trace wb) (trace (snd (run h testsToRun useLegacyPeerDeps runCount i w)))))))
   \<and> catalog = [''cleanInstall'', ''nextBuild'', ''typeCheck'', ''linter'', ''imageProcessing'',
                 ''fileIo'', ''heavyScript'']
   \<and> (''cleanInstall'' \<in> set testsToRun \<and> ''nextBuild'' \<in> set testsToRun \<longrightarrow>
        (\<exists>rest. filter (\<lambda>k. k \<in> set testsToRun) catalog = ''cleanInstall'' # ''nextBuild'' # rest))"
proof (intro conjI)
  obtain out w' where r: "run h testsToRun useLegacyPeerDeps runCount i w = (out, w')"
    by (cases "run h testsToRun useLegacyPeerDeps runCount i w")
  from beginsD [OF begins_run r] obtain evs where
    evs: "trace w' = trace w @ evs" "prefix (begun evs) (filter (\<lambda>k. k \<in> set testsToRun) catalog)"
      "\<And>x. out = Fulfilled x \<Longrightarrow> begun evs = filter (\<lambda>k. k \<in> set testsToRun) catalog"
    by blast
  have "\<forall>rep. out = Fulfilled rep \<longrightarrow>
               begun evs = filter (\<lambda>k. k \<in> set testsToRun) catalog
             \<and> map fst (benchmarks rep) = filter (\<lambda>k. k \<in> set testsToRun) catalog
             \<and> (\<forall>k r. (k, r) \<in> set (benchmarks rep) \<longrightarrow>
                  (\<exists>wa wb. task_of h testsToRun useLegacyPeerDeps (runTempDir_of h w) k
                              (emit (Begin k) wa) = (Fulfilled r, wb)
                     \<and> prefix (trace w) (trace wa) \<and> prefix (trace wb) (trace w')))"
  proof (intro allI impI conjI)
    fix rep assume "out = Fulfilled rep"
    with r have rr: "run h testsToRun useLegacyPeerDeps runCount i w = (Fulfilled rep, w')" by simp
    show "begun evs = filter (\<lambda>k. k \<in> set testsToRun) catalog"
      by (rule evs(3)) fact
    show "map fst (benchmarks rep) = filter (\<lambda>k. k \<in> set testsToRun) catalog"
      by (rule run_keys [OF rr])
    fix k r0 assume "(k, r0) \<in> set (benchmarks rep)"
    with run_results [OF rr]
    show "\<exists>wa wb. task_of h testsToRun useLegacyPeerDeps (runTempDir_of h w) k
                              (emit (Begin k) wa) = (Fulfilled r0, wb)
                     \<and> prefix (trace w) (trace wa) \<and> prefix (trace wb) (trace w')"
      by blast
  qed
  then show "\<exists>evs. trace (snd (run h testsToRun useLegacyPeerDeps runCount i w)) = trace w @ evs
        \<and> prefix (begun evs) (filter (\<lambda>k. k \<in> set testsToRun) catalog)
        \<and> (\<forall>rep. fst (run h testsToRun useLegacyPeerDeps runCount i w) = Fulfilled rep \<longrightarrow>
               begun evs = filter (\<lambda>k. k \<in> set testsToRun) catalog
             \<and> map fst (benchmarks rep) = filter (\<lambda>k. k \<in> set testsToRun) catalog
             \<and> (\<forall>k r. (k, r) \<in> set (benchmarks rep) \<longrightarrow>
                  (\<exists>wa wb. task_of h testsToRun useLegacyPeerDeps (runTempDir_of h w) k
                              (emit (Begin k) wa) = (Fulfilled r, wb)
                     \<and> prefix (trace w) (trace wa)
                     \<and> prefix (trace wb) (trace (snd (run h testsToRun useLegacyPeerDeps runCount i w))))))"
    unfolding r fst_conv snd_conv using evs(1,2) by (intro exI [where x = evs] conjI)
  show "catalog = [''cleanInstall'', ''nextBuild'', ''typeCheck'', ''linter'', ''imageProcessing'',
                 ''fileIo'', ''heavyScript'']"
    by (simp add: catalog_def)
  show "''cleanInstall'' \<in> set testsToRun \<and> ''nextBuild'' \<in> set testsToRun \<longrightarrow>
        (\<exists>rest. filter (\<lambda>k. k \<in> set testsToRun) catalog = ''cleanInstall'' # ''nextBuild'' # rest)"
    by (simp add: catalog_def)
qed

theorem catalog_order_witness:
  "\<exists>rep w' evs. run host0 [''heavyScript'', ''typeCheck''] False 1 1 world0 = (Fulfilled rep, w')
     \<and> trace w' = trace world0 @ evs
     \<and> begun evs = [''typeCheck'', ''heavyScript'']
     \<and> map fst (benchmarks rep) = [''typeCheck'', ''heavyScript'']
     \<and> (\<forall>r. (''typeCheck'', r) \<in> set (benchmarks rep) \<longrightarrow>
          (\<exists>wa wb. runTypeScriptCheck host0 (emit (Begin ''typeCheck'') wa) = (Fulfilled r, wb)
             \<and> prefix (trace world0) (trace wa) \<and> prefix (trace wb) (trace w')))"
proof -
  from succeedsD [OF succeeds_run [OF calm_host0]]
  obtain rep w' where r: "run host0 [''heavyScript'', ''typeCheck''] False 1 1 world0 = (Fulfilled rep, w')"
    by blast
  have f: "filter (\<lambda>k. k \<in> set [''heavyScript'', ''typeCheck'']) catalog = [''typeCheck'', ''heavyScript'']"
    by (simp add: catalog_def)
  have t: "task_of host0 [''heavyScript'', ''typeCheck''] False (runTempDir_of host0 world0) ''typeCheck''
             = runTypeScriptCheck host0"
    by (simp add: task_of_def)
  from catalog_order [of host0 "[''heavyScript'', ''typeCheck'']" False 1 1 world0]
  obtain evs where e: "trace w' = trace world0 @ evs"
    and a: "begun evs = [''typeCheck'', ''heavyScript'']"
    and b: "map fst (benchmarks rep) = [''typeCheck'', ''heavyScript'']"
    and c: "\<forall>k r. (k, r) \<in> set (benchmarks rep) \<longrightarrow>
              (\<exists>wa wb. task_of host0 [''heavyScript'', ''typeCheck''] False (runTempDir_of host0 world0) k
                          (emit (Begin k) wa) = (Fulfilled r, wb)
                 \<and> prefix (trace world0) (trace wa) \<and> prefix (trace wb) (trace w'))"
    unfolding f r fst_conv snd_conv by blast
  have d: "\<forall>r. (''typeCheck'', r) \<in> set (benchmarks rep) \<longrightarrow>
          (\<exists>wa wb. runTypeScriptCheck host0 (emit (Begin ''typeCheck'') wa) = (Fulfilled r, wb)
             \<and> prefix (trace world0) (trace wa) \<and> prefix (trace wb) (trace w'))"
    using c [THEN spec, of "''typeCheck''"] unfolding t .
  show ?thesis
    by (rule exI [where x = rep], rule exI [where x = w'], rule exI [where x = evs])
       (intro conjI r e a b d)
qed

section \<open>The end of a run\<close>

lemma results_outside_scratch: "\<not> is_within (runTempDir_of h w) (resultsPath_of h w)"
  by (simp add: is_within_def runTempDir_of_def resultsPath_of_def path_join_def mainDir_def
      resultsDir_def)






lemma run_end:
  assumes "run h testsToRun useLegacyPeerDeps runCount i w = (Fulfilled rep, w')"
  shows "fs w' (resultsPath_of h w) = Some (ReportFile rep)"
    and "\<forall>q. is_within (runTempDir_of h w) q \<longrightarrow> fs w' q = None"
    and "\<exists>evs. trace w' = trace w @ Mkdir (runTempDir_of h w) # evs
            @ [WriteFiles [resultsPath_of h w] (ReportFile rep), Rm (runTempDir_of h w)]"
proof -
  from assms obtain w2 info w4 b1 w5 b2 w6 b3 w7 b4 w8 b5 w9 b6 w10 b7 w11 w12 where
    mk: "fs_mkdir h (runTempDir_of h w) (interact h w) = (Fulfilled (), w2)"
    and si: "read_systemInfo h (interact h w2) = (Fulfilled info, w4)"
    and s1: "selected testsToRun ''cleanInstall'' (runCleanInstall h useLegacyPeerDeps) [] w4
       = (Fulfilled b1, w5)"
    and s2: "selected testsToRun ''nextBuild''
       (andThen (install_before_build h testsToRun useLegacyPeerDeps) (\<lambda>_. runNextBuild h)) b1 w5
       = (Fulfilled b2, w6)"
    and s3: "selected testsToRun ''typeCheck'' (runTypeScriptCheck h) b2 w6 = (Fulfilled b3, w7)"
    and s4: "selected testsToRun ''linter'' (runLinterTest h) b3 w7 = (Fulfilled b4, w8)"
    and s5: "selected testsToRun ''imageProcessing'' (runImageProcessingTest h (runTempDir_of h w)) b4 w8
       = (Fulfilled b5, w9)"
    and s6: "selected testsToRun ''fileIo'' (runFileIoTest h (runTempDir_of h w)) b5 w9
       = (Fulfilled b6, w10)"
    and s7: "selected testsToRun ''heavyScript'' (runHeavyScript h) b6 w10 = (Fulfilled b7, w11)"
    and rep: "rep = \<lparr>scriptVersion = SCRIPT_VERSION, systemInfo = info, benchmarks = b7,
            runNumber = i, totalRuns = runCount,
            runStartTimeUTC = date_now h (tick w2), runEndTimeUTC = date_now h (tick w11)\<rparr>"
    and wf: "fs_writeFiles h [resultsPath_of h w] (ReportFile rep) (interact h w11) = (Fulfilled (), w12)"
    and rm: "fs_rm h (runTempDir_of h w) w12 = (Fulfilled (), w')"
    by (rule run_Fulfilled)
  note w2 = fs_mkdir_Fulfilled [OF mk]
  note w12 = fs_writeFiles_Fulfilled(1) [OF wf]
  note w'' = fs_rm_Fulfilled [OF rm]
  show "fs w' (resultsPath_of h w) = Some (ReportFile rep)"
    using results_outside_scratch [of h w]
    by (simp add: w'' w12 remove_tree_def write_all_def)
  show "\<forall>q. is_within (runTempDir_of h w) q \<longrightarrow> fs w' q = None"
    by (simp add: w'' remove_tree_def)
  have e0: "trace w4 = trace w @ [Mkdir (runTempDir_of h w)]"
    using si by (auto simp: w2 read_systemInfo_def split: list.splits)
  have ext: "\<exists>evs. trace wb = trace wa @ evs"
    if "selected testsToRun key task bs wa = (Fulfilled bs', wb)" "adds task_event task"
    for key task bs wa bs' wb
    using beginsD [OF begins_selected [OF that(2)] that(1)] by metis
  from ext [OF s1 task_event_runCleanInstall] obtain e1 where e1: "trace w5 = trace w4 @ e1" ..
  from ext [OF s2 task_event_build] obtain e2 where e2: "trace w6 = trace w5 @ e2" ..
  from ext [OF s3 task_event_runTypeScriptCheck] obtain e3 where e3: "trace w7 = trace w6 @ e3" ..
  from ext [OF s4 task_event_runLinterTest] obtain e4 where e4: "trace w8 = trace w7 @ e4" ..
  from ext [OF s5 task_event_runImageProcessingTest] obtain e5 where e5: "trace w9 = trace w8 @ e5" ..
  from ext [OF s6 task_event_runFileIoTest] obtain e6 where e6: "trace w10 = trace w9 @ e6" ..
  from ext [OF s7 task_event_runHeavyScript] obtain e7 where e7: "trace w11 = trace w10 @ e7" ..
  have "trace w' = trace w @ Mkdir (runTempDir_of h w) # (e1 @ e2 @ e3 @ e4 @ e5 @ e6 @ e7)
            @ [WriteFiles [resultsPath_of h w] (ReportFile rep), Rm (runTempDir_of h w)]"
    by (simp add: w'' w12 e7 e6 e5 e4 e3 e2 e1 e0)
  then show "\<exists>evs. trace w' = trace w @ Mkdir (runTempDir_of h w) # evs
            @ [WriteFiles [resultsPath_of h w] (ReportFile rep), Rm (runTempDir_of h w)]"
    by blast
qed




section \<open>The install before the build\<close>

lemma trace_measurePerformance_None:
  assumes "measurePerformance h cmd args None w = (out, w')"
  shows "trace w' = trace w @ [Spawn cmd args]"
  using trace_measurePerformance [of h cmd args None w] assms by (simp add: fires_def)

lemma build_trace:
  assumes "andThen (install_before_build h testsToRun useLegacyPeerDeps) (\<lambda>_. runNextBuild h) w
             = (Fulfilled r, w')"
    and "''cleanInstall'' \<notin> set testsToRun" and "\<forall>k. confirmInstall h k"
  shows "\<exists>mid. trace w' = trace w @ [Confirm True, Spawn ''npm'' (installArgs useLegacyPeerDeps)]
             @ mid @ [Spawn ''npx'' [''next'', ''build'']]
           \<and> (mid = [] \<or> mid = [Rm ''.next''])"
proof -
  from assms(1) obtain w1 where
    i: "install_before_build h testsToRun useLegacyPeerDeps w = (Fulfilled (), w1)"
    and b: "runNextBuild h w1 = (Fulfilled r, w')"
    by (auto elim!: andThen_FulfilledE)
  from i assms(2,3) obtain x where
    m: "measurePerformance h ''npm'' (installArgs useLegacyPeerDeps) None
          (interact h (emit (Confirm True) w)) = (Fulfilled x, w1)"
    by (auto simp: install_before_build_def prompt_confirmInstall_def Let_def resolve_def
        elim!: andThen_FulfilledE)
  have t1: "trace w1 = trace w @ [Confirm True, Spawn ''npm'' (installArgs useLegacyPeerDeps)]"
    using trace_measurePerformance_None [OF m] by simp
  from b obtain w2 where
    d: "(if fs w1 ''.next'' \<noteq> None \<and> \<not> fs_fault h (tick w1) ''.next''
         then fs_rm h ''.next'' else resolve ()) (interact h w1) = (Fulfilled (), w2)"
    and n: "measurePerformance h ''npx'' [''next'', ''build''] None w2 = (Fulfilled r, w')"
    by (auto simp: runNextBuild_def directoryExists_def elim!: andThen_FulfilledE)
  have "trace w2 = trace w1 \<or> trace w2 = trace w1 @ [Rm ''.next'']"
    using d by (auto simp: resolve_def dest!: fs_rm_Fulfilled split: if_splits)
  then obtain mid where mid: "trace w2 = trace w1 @ mid" "mid = [] \<or> mid = [Rm ''.next'']"
    by auto
  have "trace w' = trace w @ [Confirm True, Spawn ''npm'' (installArgs useLegacyPeerDeps)]
             @ mid @ [Spawn ''npx'' [''next'', ''build'']]"
    using trace_measurePerformance_None [OF n] mid(1) t1 by simp
  with mid(2) show ?thesis by blast
qed

text \<open>
  Claim C8. A run completes in which the build is selected, the clean install is not, and
  the prompt is answered with yes. Then the run has spawned \<^verbatim>\<open>npm install\<close> (with
  \<^verbatim>\<open>--legacy-peer-deps\<close> if that was asked for) right after the prompt, as its first
  command, and \<^verbatim>\<open>npx next build\<close> after it, with at most the removal of \<^verbatim>\<open>.next\<close> between
  the two; and the report that is written holds a result for \<open>nextBuild\<close> and none for
  \<open>cleanInstall\<close>.
\<close>

theorem install_before_build:
  assumes "run h testsToRun useLegacyPeerDeps runCount i w = (Fulfilled rep, w')"
    and "''nextBuild'' \<in> set testsToRun" and "''cleanInstall'' \<notin> set testsToRun"
    and "\<forall>k. confirmInstall h k"
  shows "(\<exists>mid post.
            trace w' = trace w @
              [Mkdir (runTempDir_of h w), Begin ''nextBuild'', Confirm True,
               Spawn ''npm'' (installArgs useLegacyPeerDeps)]
              @ mid @ Spawn ''npx'' [''next'', ''build''] # post
          \<and> (mid = [] \<or> mid = [Rm ''.next'']))
       \<and> ''cleanInstall'' \<notin> set (map fst (benchmarks rep))
       \<and> ''nextBuild'' \<in> set (map fst (benchmarks rep))
       \<and> fs w' (resultsPath_of h w) = Some (ReportFile rep)"
proof -
  from assms(1) obtain w2 info w4 b1 w5 b2 w6 b3 w7 b4 w8 b5 w9 b6 w10 b7 w11 w12 where
    mk: "fs_mkdir h (runTempDir_of h w) (interact h w) = (Fulfilled (), w2)"
    and si: "read_systemInfo h (interact h w2) = (Fulfilled info, w4)"
    and s1: "selected testsToRun ''cleanInstall'' (runCleanInstall h useLegacyPeerDeps) [] w4
       = (Fulfilled b1, w5)"
    and s2: "selected testsToRun ''nextBuild''
       (andThen (install_before_build h testsToRun useLegacyPeerDeps) (\<lambda>_. runNextBuild h)) b1 w5
       = (Fulfilled b2, w6)"
    and s3: "selected testsToRun ''typeCheck'' (runTypeScriptCheck h) b2 w6 = (Fulfilled b3, w7)"
    and s4: "selected testsToRun ''linter'' (runLinterTest h) b3 w7 = (Fulfilled b4, w8)"
    and s5: "selected testsToRun ''imageProcessing'' (runImageProcessingTest h (runTempDir_of h w)) b4 w8
       = (Fulfilled b5, w9)"
    and s6: "selected testsToRun ''fileIo'' (runFileIoTest h (runTempDir_of h w)) b5 w9
       = (Fulfilled b6, w10)"
    and s7: "selected testsToRun ''heavyScript'' (runHeavyScript h) b6 w10 = (Fulfilled b7, w11)"
    and rep: "rep = \<lparr>scriptVersion = SCRIPT_VERSION, systemInfo = info, benchmarks = b7,
            runNumber = i, totalRuns = runCount,
            runStartTimeUTC = date_now h (tick w2), runEndTimeUTC = date_now h (tick w11)\<rparr>"
    and wf: "fs_writeFiles h [resultsPath_of h w] (ReportFile rep) (interact h w11) = (Fulfilled (), w12)"
    and rm: "fs_rm h (runTempDir_of h w) w12 = (Fulfilled (), w')"
    by (rule run_Fulfilled)
  note w2 = fs_mkdir_Fulfilled [OF mk]
  have e0: "trace w4 = trace w @ [Mkdir (runTempDir_of h w)]"
    using si by (auto simp: w2 read_systemInfo_def split: list.splits)
  have w5: "w5 = w4" "b1 = []"
    using selected_Fulfilled [OF s1] assms(3) by auto
  from selected_Fulfilled [OF s2] assms(2) obtain r where
    b: "andThen (install_before_build h testsToRun useLegacyPeerDeps) (\<lambda>_. runNextBuild h)
          (emit (Begin ''nextBuild'') w5) = (Fulfilled r, w6)"
    by auto
  from build_trace [OF b assms(3,4)] obtain mid where
    mid: "trace w6 = trace w5 @ [Begin ''nextBuild'', Confirm True,
             Spawn ''npm'' (installArgs useLegacyPeerDeps)] @ mid @ [Spawn ''npx'' [''next'', ''build'']]"
      "mid = [] \<or> mid = [Rm ''.next'']"
    by auto
  have ext: "\<exists>evs. trace wb = trace wa @ evs"
    if "selected testsToRun key task bs wa = (Fulfilled bs', wb)" "adds task_event task"
    for key task bs wa bs' wb
    using beginsD [OF begins_selected [OF that(2)] that(1)] by metis
  from ext [OF s3 task_event_runTypeScriptCheck] obtain e3 where e3: "trace w7 = trace w6 @ e3" ..
  from ext [OF s4 task_event_runLinterTest] obtain e4 where e4: "trace w8 = trace w7 @ e4" ..
  from ext [OF s5 task_event_runImageProcessingTest] obtain e5 where e5: "trace w9 = trace w8 @ e5" ..
  from ext [OF s6 task_event_runFileIoTest] obtain e6 where e6: "trace w10 = trace w9 @ e6" ..
  from ext [OF s7 task_event_runHeavyScript] obtain e7 where e7: "trace w11 = trace w10 @ e7" ..
  note w12 = fs_writeFiles_Fulfilled(1) [OF wf]
  note w'' = fs_rm_Fulfilled [OF rm]
  have "trace w' = trace w @
              [Mkdir (runTempDir_of h w), Begin ''nextBuild'', Confirm True,
               Spawn ''npm'' (installArgs useLegacyPeerDeps)]
              @ mid @ Spawn ''npx'' [''next'', ''build'']
                # (e3 @ e4 @ e5 @ e6 @ e7
                   @ [WriteFiles [resultsPath_of h w] (ReportFile rep), Rm (runTempDir_of h w)])"
    by (simp add: w'' w12 e7 e6 e5 e4 e3 mid(1) w5 e0)
  with mid(2) have tr: "\<exists>mid post.
            trace w' = trace w @
              [Mkdir (runTempDir_of h w), Begin ''nextBuild'', Confirm True,
               Spawn ''npm'' (installArgs useLegacyPeerDeps)]
              @ mid @ Spawn ''npx'' [''next'', ''build''] # post
          \<and> (mid = [] \<or> mid = [Rm ''.next''])"
    by blast
  have keys: "map fst (benchmarks rep) = filter (\<lambda>k. k \<in> set testsToRun) catalog"
    by (rule run_keys [OF assms(1)])
  have k1: "''cleanInstall'' \<notin> set (map fst (benchmarks rep))"
    unfolding keys using assms(3) by simp
  have k2: "''nextBuild'' \<in> set (map fst (benchmarks rep))"
    unfolding keys using assms(2) by (simp add: catalog_def)
  show ?thesis
    using tr k1 k2 run_end(1) [OF assms(1)] by blast
qed

theorem install_before_build_witness:
  "\<exists>rep w' mid post.
     run host0 [''nextBuild''] False 1 1 world0 = (Fulfilled rep, w')
     \<and> trace w' =
          [Mkdir ''benchmark-me/temp-1700000000000'', Begin ''nextBuild'', Confirm True,
           Spawn ''npm'' [''install'']] @ mid @ Spawn ''npx'' [''next'', ''build''] # post
     \<and> map fst (benchmarks rep) = [''nextBuild'']"
proof -
  from succeedsD [OF succeeds_run [OF calm_host0]]
  obtain rep w' where r: "run host0 [''nextBuild''] False 1 1 world0 = (Fulfilled rep, w')"
    by blast
  have 1: "''nextBuild'' \<in> set [''nextBuild'']" and 2: "''cleanInstall'' \<notin> set [''nextBuild'']"
    and 3: "\<forall>k. confirmInstall host0 k"
    by (simp_all add: host0_def)
  note t = install_before_build [OF r 1 2 3]
  have n: "runTempDir_of host0 world0 = ''benchmark-me/temp-1700000000000''"
    by (simp add: runTempDir_of_def host0_def world0_def path_join_def mainDir_def
        decimal_digit decimal_step digit_chars)
  have keys: "map fst (benchmarks rep) = [''nextBuild'']"
    using run_keys [OF r] by (simp add: catalog_def)
  from t obtain mid post where
    "trace w' = trace world0 @
              [Mkdir (runTempDir_of host0 world0), Begin ''nextBuild'', Confirm True,
               Spawn ''npm'' (installArgs False)]
              @ mid @ Spawn ''npx'' [''next'', ''build''] # post"
    by blast
  then have tr: "trace w' =
          [Mkdir ''benchmark-me/temp-1700000000000'', Begin ''nextBuild'', Confirm True,
           Spawn ''npm'' [''install'']] @ mid @ Spawn ''npx'' [''next'', ''build''] # post"
    unfolding n by (simp add: world0_def installArgs_def)
  show ?thesis
    by (rule exI [where x = rep], rule exI [where x = w'], rule exI [where x = mid],
        rule exI [where x = post]) (intro conjI r tr keys)
qed

section \<open>Commands that fail\<close>

lemma runNextBuild_exit:
  assumes "runNextBuild h w = (Fulfilled r, w')"
  shows "\<exists>j code. settles (child h j) = Some (Exited code) \<and> exitCode r = Present code"
  using assms
  by (auto simp: runNextBuild_def elim!: andThen_FulfilledE dest!: measurePerformance_Fulfilled)

lemma build_exit:
  assumes "andThen (install_before_build h testsToRun useLegacyPeerDeps) (\<lambda>_. runNextBuild h) w
             = (Fulfilled r, w')"
  shows "\<exists>j code. settles (child h j) = Some (Exited code) \<and> exitCode r = Present code"
  using assms by (auto elim!: andThen_FulfilledE dest!: runNextBuild_exit)

lemma runner_exit:
  assumes "measurePerformance h cmd args killSignal w = (Fulfilled r, w')"
  shows "\<exists>j code. settles (child h j) = Some (Exited code) \<and> exitCode r = Present code"
  using measurePerformance_Fulfilled [OF assms] by blast

lemma selected_exit:
  assumes sel: "selected testsToRun key task bs w = (Fulfilled bs', w')"
    and old: "\<forall>k r. (k, r) \<in> set bs \<and> k \<in> K \<longrightarrow> exitCode r = c"
    and new: "key \<in> K \<Longrightarrow> \<forall>r w w'. task w = (Fulfilled r, w') \<longrightarrow> exitCode r = c"
  shows "\<forall>k r. (k, r) \<in> set bs' \<and> k \<in> K \<longrightarrow> exitCode r = c"
proof (intro allI impI)
  fix k r assume kr: "(k, r) \<in> set bs' \<and> k \<in> K"
  from selected_Fulfilled [OF sel] show "exitCode r = c"
  proof (elim disjE conjE exE)
    assume "bs' = bs"
    with kr old show ?thesis by blast
  next
    fix r0 assume t: "task (emit (Begin key) w) = (Fulfilled r0, w')" and b: "bs' = assign bs key r0"
    from kr b set_assign [of bs key r0] have "(k, r) = (key, r0) \<or> (k, r) \<in> set bs" by auto
    then show ?thesis
    proof
      assume "(k, r) = (key, r0)"
      with kr new t show ?thesis by blast
    next
      assume "(k, r) \<in> set bs"
      with kr old show ?thesis by blast
    qed
  qed
qed

lemma run_exit_codes:
  assumes "run h testsToRun useLegacyPeerDeps runCount i w = (Fulfilled rep, w')"
    and all: "\<forall>k. settles (child h k) = Some (Exited (Some n))"
  shows "\<forall>k r. (k, r) \<in> set (benchmarks rep) \<and> k \<in> {''nextBuild'', ''typeCheck'', ''linter''}
           \<longrightarrow> exitCode r = Present (Some n)"
proof -
  from assms(1) obtain w2 info w4 b1 w5 b2 w6 b3 w7 b4 w8 b5 w9 b6 w10 b7 w11 w12 where
    mk: "fs_mkdir h (runTempDir_of h w) (interact h w) = (Fulfilled (), w2)"
    and si: "read_systemInfo h (interact h w2) = (Fulfilled info, w4)"
    and s1: "selected testsToRun ''cleanInstall'' (runCleanInstall h useLegacyPeerDeps) [] w4
       = (Fulfilled b1, w5)"
    and s2: "selected testsToRun ''nextBuild''
       (andThen (install_before_build h testsToRun useLegacyPeerDeps) (\<lambda>_. runNextBuild h)) b1 w5
       = (Fulfilled b2, w6)"
    and s3: "selected testsToRun ''typeCheck'' (runTypeScriptCheck h) b2 w6 = (Fulfilled b3, w7)"
    and s4: "selected testsToRun ''linter'' (runLinterTest h) b3 w7 = (Fulfilled b4, w8)"
    and s5: "selected testsToRun ''imageProcessing'' (runImageProcessingTest h (runTempDir_of h w)) b4 w8
       = (Fulfilled b5, w9)"
    and s6: "selected testsToRun ''fileIo'' (runFileIoTest h (runTempDir_of h w)) b5 w9
       = (Fulfilled b6, w10)"
    and s7: "selected testsToRun ''heavyScript'' (runHeavyScript h) b6 w10 = (Fulfilled b7, w11)"
    and rep: "rep = \<lparr>scriptVersion = SCRIPT_VERSION, systemInfo = info, benchmarks = b7,
            runNumber = i, totalRuns = runCount,
            runStartTimeUTC = date_now h (tick w2), runEndTimeUTC = date_now h (tick w11)\<rparr>"
    and wf: "fs_writeFiles h [resultsPath_of h w] (ReportFile rep) (interact h w11) = (Fulfilled (), w12)"
    and rm: "fs_rm h (runTempDir_of h w) w12 = (Fulfilled (), w')"
    by (rule run_Fulfilled)
  let ?K = "{''nextBuild'', ''typeCheck'', ''linter''}"
  have code: "exitCode r = Present (Some n)"
    if "\<exists>j code. settles (child h j) = Some (Exited code) \<and> exitCode r = Present code" for r
    using that all by auto
  have q0: "\<forall>k r. (k, r) \<in> set [] \<and> k \<in> ?K \<longrightarrow> exitCode r = Present (Some n)"
    by simp
  have q1: "\<forall>k r. (k, r) \<in> set b1 \<and> k \<in> ?K \<longrightarrow> exitCode r = Present (Some n)"
    by (rule selected_exit [OF s1 q0]) simp
  have q2: "\<forall>k r. (k, r) \<in> set b2 \<and> k \<in> ?K \<longrightarrow> exitCode r = Present (Some n)"
    by (rule selected_exit [OF s2 q1]) (blast intro: code build_exit)
  have q3: "\<forall>k r. (k, r) \<in> set b3 \<and> k \<in> ?K \<longrightarrow> exitCode r = Present (Some n)"
    by (rule selected_exit [OF s3 q2]) (unfold runTypeScriptCheck_def, blast intro: code runner_exit)
  have q4: "\<forall>k r. (k, r) \<in> set b4 \<and> k \<in> ?K \<longrightarrow> exitCode r = Present (Some n)"
    by (rule selected_exit [OF s4 q3]) (unfold runLinterTest_def, blast intro: code runner_exit)
  have q5: "\<forall>k r. (k, r) \<in> set b5 \<and> k \<in> ?K \<longrightarrow> exitCode r = Present (Some n)"
    by (rule selected_exit [OF s5 q4]) simp
  have q6: "\<forall>k r. (k, r) \<in> set b6 \<and> k \<in> ?K \<longrightarrow> exitCode r = Present (Some n)"
    by (rule selected_exit [OF s6 q5]) simp
  have q7: "\<forall>k r. (k, r) \<in> set b7 \<and> k \<in> ?K \<longrightarrow> exitCode r = Present (Some n)"
    by (rule selected_exit [OF s7 q6]) simp
  then show ?thesis by (simp add: rep)
qed

text \<open>
  Claim C3. A runner whose child closes with an exit code (zero or not, or \<^verbatim>\<open>null\<close>) is
  fulfilled with a result that records that code; it is rejected exactly when the child
  emits \<^verbatim>\<open>'error'\<close> before it closes, and then with the error of the operating system. On a
  host where nothing else fails and every command exits with the code \<open>n\<close>, a run goes
  through every selected task, records \<open>n\<close> in the results of the build, the type check and
  the linter, and its report is in the results directory when the run ends.
\<close>

theorem nonzero_exit_resolves:
  "(settles (child h (tick w + 3)) = Some (Exited code) \<longrightarrow>
      (\<exists>r w'. measurePerformance h cmd args killSignal w = (Fulfilled r, w')
          \<and> exitCode r = Present code))
   \<and> (settles (child h (tick w + 3)) = Some (Failed err) \<longrightarrow>
      (\<exists>w'. measurePerformance h cmd args killSignal w = (Rejected (SpawnError err), w')))
   \<and> (measurePerformance h cmd args killSignal w = (Rejected e, w1) \<longrightarrow>
      (\<exists>err. settles (child h (tick w + 3)) = Some (Failed err) \<and> e = SpawnError err))
   \<and> (calm h \<and> (\<forall>k. settles (child h k) = Some (Exited (Some n))) \<longrightarrow>
      (\<exists>rep w'. run h testsToRun useLegacyPeerDeps runCount i w = (Fulfilled rep, w')
         \<and> map fst (benchmarks rep) = filter (\<lambda>k. k \<in> set testsToRun) catalog
         \<and> (\<forall>k r. (k, r) \<in> set (benchmarks rep) \<and> k \<in> {''nextBuild'', ''typeCheck'', ''linter''}
               \<longrightarrow> exitCode r = Present (Some n))
         \<and> fs w' (resultsPath_of h w) = Some (ReportFile rep)))"
proof (intro conjI impI)
  assume "settles (child h (tick w + 3)) = Some (Exited code)"
  from measurePerformance_Exited [OF this, of cmd args killSignal]
  show "\<exists>r w'. measurePerformance h cmd args killSignal w = (Fulfilled r, w')
          \<and> exitCode r = Present code"
    by blast
next
  assume "settles (child h (tick w + 3)) = Some (Failed err)"
  then show "\<exists>w'. measurePerformance h cmd args killSignal w = (Rejected (SpawnError err), w')"
    by (rule measurePerformance_Failed)
next
  assume "measurePerformance h cmd args killSignal w = (Rejected e, w1)"
  then show "\<exists>err. settles (child h (tick w + 3)) = Some (Failed err) \<and> e = SpawnError err"
    by (rule measurePerformance_Rejected)
next
  assume a: "calm h \<and> (\<forall>k. settles (child h k) = Some (Exited (Some n)))"
  then have "calm h" and all: "\<forall>k. settles (child h k) = Some (Exited (Some n))" by blast+
  from succeedsD [OF succeeds_run [OF \<open>calm h\<close>]] obtain rep w' where
    r: "run h testsToRun useLegacyPeerDeps runCount i w = (Fulfilled rep, w')"
    by blast
  show "\<exists>rep w'. run h testsToRun useLegacyPeerDeps runCount i w = (Fulfilled rep, w')
         \<and> map fst (benchmarks rep) = filter (\<lambda>k. k \<in> set testsToRun) catalog
         \<and> (\<forall>k r. (k, r) \<in> set (benchmarks rep) \<and> k \<in> {''nextBuild'', ''typeCheck'', ''linter''}
               \<longrightarrow> exitCode r = Present (Some n))
         \<and> fs w' (resultsPath_of h w) = Some (ReportFile rep)"
    by (rule exI [where x = rep], rule exI [where x = w'])
      (intro conjI r run_keys [OF r] run_exit_codes [OF r all] run_end(1) [OF r])
qed

theorem nonzero_exit_resolves_witness:
  "\<exists>rep w' r1 r2. run host0 [''linter'', ''typeCheck''] False 1 1 world0 = (Fulfilled rep, w')
     \<and> benchmarks rep = [(''typeCheck'', r1), (''linter'', r2)]
     \<and> exitCode r1 = Present (Some 1) \<and> exitCode r2 = Present (Some 1)
     \<and> fs w' (resultsPath_of host0 world0) = Some (ReportFile rep)"
proof -
  have c: "calm host0 \<and> (\<forall>k. settles (child host0 k) = Some (Exited (Some 1)))"
    using calm_host0 by (simp add: host0_def)
  from nonzero_exit_resolves [of host0 world0 _ _ _ _ _ _ _ 1 "[''linter'', ''typeCheck'']" False 1 1,
      THEN conjunct2, THEN conjunct2, THEN conjunct2] c
  obtain rep w' where
    r: "run host0 [''linter'', ''typeCheck''] False 1 1 world0 = (Fulfilled rep, w')"
    and k: "map fst (benchmarks rep) = filter (\<lambda>k. k \<in> set [''linter'', ''typeCheck'']) catalog"
    and x: "\<forall>k r. (k, r) \<in> set (benchmarks rep) \<and> k \<in> {''nextBuild'', ''typeCheck'', ''linter''}
               \<longrightarrow> exitCode r = Present (Some 1)"
    and p: "fs w' (resultsPath_of host0 world0) = Some (ReportFile rep)"
    by blast
  from k have "map fst (benchmarks rep) = [''typeCheck'', ''linter'']"
    by (simp add: catalog_def)
  then obtain r1 r2 where b: "benchmarks rep = [(''typeCheck'', r1), (''linter'', r2)]"
    by (auto simp: map_eq_Cons_conv)
  have "(''typeCheck'', r1) \<in> set (benchmarks rep) \<and> ''typeCheck'' \<in> {''nextBuild'', ''typeCheck'', ''linter''}"
    and "(''linter'', r2) \<in> set (benchmarks rep) \<and> ''linter'' \<in> {''nextBuild'', ''typeCheck'', ''linter''}"
    by (simp_all add: b)
  with x have "exitCode r1 = Present (Some 1)" "exitCode r2 = Present (Some 1)"
    by blast+
  with r b p show ?thesis
    by (intro exI [where x = rep] exI [where x = w'] exI [where x = r1] exI [where x = r2]) simp
qed

section \<open>The heavy script alone\<close>

lemma runHeavyScript_Fulfilled:
  assumes "runHeavyScript h w = (Fulfilled r, w')"
  shows "amountOfProcessedItems r = Absent" "exitCode r = Absent" "subTasks r = Absent"
    "output_text r = Absent"
    "trace w' = trace w @ [Found (length (findPrimes maxNumber)) maxNumber]"
  using assms
  by (auto simp: runHeavyScript_def Let_def resolve_def getMemoryUsage_eq getCpuUsage_def
      elim!: andThen_FulfilledE)

lemma main_once:
  assumes "main h testsToRun useLegacyPeerDeps 1 w = (Fulfilled reps, w')"
  obtains w1 rep where "fs_mkdir h resultsDir w = (Fulfilled (), w1)"
    "run h testsToRun useLegacyPeerDeps 1 1 w1 = (Fulfilled rep, w')" "reps = [rep]"
  using assms
  by (auto simp: main_def resolve_def elim!: andThen_FulfilledE)

text \<open>
  Claim C9. With the heavy script as the only task selected and one run asked for,
  \<^verbatim>\<open>main\<close> completes on every host where no file operation fails; and when it completes, it
  has written one report, whose \<open>benchmarks\<close> hold the one key \<open>heavyScript\<close> with the result of
  \<^verbatim>\<open>runHeavyScript\<close>. That result has no \<^verbatim>\<open>amountOfProcessedItems\<close>, no \<^verbatim>\<open>exitCode\<close> and no
  \<^verbatim>\<open>subTasks\<close>, and the whole run has spawned no process: all it did was make the two
  directories, compute the primes, write the report and remove the scratch directory.
\<close>

theorem heavy_script_only:
  "(calm h \<longrightarrow> (\<exists>reps w'. main h [''heavyScript''] useLegacyPeerDeps 1 w = (Fulfilled reps, w')))
   \<and> (main h [''heavyScript''] useLegacyPeerDeps 1 w = (Fulfilled reps, w') \<longrightarrow>
        (\<exists>rep r w0 w1 T P.
            reps = [rep] \<and> benchmarks rep = [(''heavyScript'', r)]
          \<and> runHeavyScript h w0 = (Fulfilled r, w1)
          \<and> amountOfProcessedItems r = Absent \<and> exitCode r = Absent \<and> subTasks r = Absent
          \<and> runNumber rep = 1 \<and> totalRuns rep = 1
          \<and> trace w' = trace w @
                [Mkdir resultsDir, Mkdir T, Begin ''heavyScript'',
                 Found (length (findPrimes maxNumber)) maxNumber,
                 WriteFiles [P] (ReportFile rep), Rm T]
          \<and> fs w' P = Some (ReportFile rep)))"
proof (intro conjI impI)
  assume "calm h"
  then show "\<exists>reps w'. main h [''heavyScript''] useLegacyPeerDeps 1 w = (Fulfilled reps, w')"
    by (intro succeedsD succeeds_main)
next
  assume m: "main h [''heavyScript''] useLegacyPeerDeps 1 w = (Fulfilled reps, w')"
  from m obtain wm rep where
    mkr: "fs_mkdir h resultsDir w = (Fulfilled (), wm)"
    and run: "run h [''heavyScript''] useLegacyPeerDeps 1 1 wm = (Fulfilled rep, w')"
    and reps: "reps = [rep]"
    by (rule main_once)
  let ?T = "runTempDir_of h wm" and ?P = "resultsPath_of h wm"
  from run obtain w2 info w4 b1 w5 b2 w6 b3 w7 b4 w8 b5 w9 b6 w10 b7 w11 w12 where
    mk: "fs_mkdir h (runTempDir_of h wm) (interact h wm) = (Fulfilled (), w2)"
    and si: "read_systemInfo h (interact h w2) = (Fulfilled info, w4)"
    and s1: "selected [''heavyScript''] ''cleanInstall'' (runCleanInstall h useLegacyPeerDeps) [] w4
       = (Fulfilled b1, w5)"
    and s2: "selected [''heavyScript''] ''nextBuild''
       (andThen (install_before_build h [''heavyScript''] useLegacyPeerDeps) (\<lambda>_. runNextBuild h)) b1 w5
       = (Fulfilled b2, w6)"
    and s3: "selected [''heavyScript''] ''typeCheck'' (runTypeScriptCheck h) b2 w6 = (Fulfilled b3, w7)"
    and s4: "selected [''heavyScript''] ''linter'' (runLinterTest h) b3 w7 = (Fulfilled b4, w8)"
    and s5: "selected [''heavyScript''] ''imageProcessing'' (runImageProcessingTest h (runTempDir_of h wm)) b4 w8
       = (Fulfilled b5, w9)"
    and s6: "selected [''heavyScript''] ''fileIo'' (runFileIoTest h (runTempDir_of h wm)) b5 w9
       = (Fulfilled b6, w10)"
    and s7: "selected [''heavyScript''] ''heavyScript'' (runHeavyScript h) b6 w10 = (Fulfilled b7, w11)"
    and rep: "rep = \<lparr>scriptVersion = SCRIPT_VERSION, systemInfo = info, benchmarks = b7,
            runNumber = 1, totalRuns = 1,
            runStartTimeUTC = date_now h (tick w2), runEndTimeUTC = date_now h (tick w11)\<rparr>"
    and wf: "fs_writeFiles h [resultsPath_of h wm] (ReportFile rep) (interact h w11) = (Fulfilled (), w12)"
    and rm: "fs_rm h (runTempDir_of h wm) w12 = (Fulfilled (), w')"
    by (rule run_Fulfilled)
  note wm = fs_mkdir_Fulfilled [OF mkr]
  note w2 = fs_mkdir_Fulfilled [OF mk]
  have e0: "trace w4 = trace w @ [Mkdir resultsDir, Mkdir ?T]"
    using si by (auto simp: w2 wm read_systemInfo_def split: list.splits)
  have n1: "w5 = w4" "b1 = []" using selected_Fulfilled [OF s1] by auto
  have n2: "w6 = w5" "b2 = b1" using selected_Fulfilled [OF s2] by auto
  have n3: "w7 = w6" "b3 = b2" using selected_Fulfilled [OF s3] by auto
  have n4: "w8 = w7" "b4 = b3" using selected_Fulfilled [OF s4] by auto
  have n5: "w9 = w8" "b5 = b4" using selected_Fulfilled [OF s5] by auto
  have n6: "w10 = w9" "b6 = b5" using selected_Fulfilled [OF s6] by auto
  from selected_Fulfilled [OF s7] obtain r where
    hv: "runHeavyScript h (emit (Begin ''heavyScript'') w10) = (Fulfilled r, w11)"
    and b7: "b7 = assign b6 ''heavyScript'' r"
    by auto
  have b: "benchmarks rep = [(''heavyScript'', r)]"
    by (simp add: rep b7 n6 n5 n4 n3 n2 n1)
  note hs = runHeavyScript_Fulfilled [OF hv]
  note w12 = fs_writeFiles_Fulfilled(1) [OF wf]
  note w'' = fs_rm_Fulfilled [OF rm]
  have tr: "trace w' = trace w @
                [Mkdir resultsDir, Mkdir ?T, Begin ''heavyScript'',
                 Found (length (findPrimes maxNumber)) maxNumber,
                 WriteFiles [?P] (ReportFile rep), Rm ?T]"
    by (simp add: w'' w12 hs(5) n6 n5 n4 n3 n2 n1 e0)
  have nums: "runNumber rep = 1" "totalRuns rep = 1" by (simp_all add: rep)
  note p = run_end(1) [OF run]
  show "\<exists>rep r w0 w1 T P.
            reps = [rep] \<and> benchmarks rep = [(''heavyScript'', r)]
          \<and> runHeavyScript h w0 = (Fulfilled r, w1)
          \<and> amountOfProcessedItems r = Absent \<and> exitCode r = Absent \<and> subTasks r = Absent
          \<and> runNumber rep = 1 \<and> totalRuns rep = 1
          \<and> trace w' = trace w @
                [Mkdir resultsDir, Mkdir T, Begin ''heavyScript'',
                 Found (length (findPrimes maxNumber)) maxNumber,
                 WriteFiles [P] (ReportFile rep), Rm T]
          \<and> fs w' P = Some (ReportFile rep)"
    by (rule exI [where x = rep], rule exI [where x = r],
        rule exI [where x = "emit (Begin ''heavyScript'') w10"], rule exI [where x = w11],
        rule exI [where x = ?T], rule exI [where x = ?P])
      (intro conjI reps b hv hs(1,2,3) nums tr p)
qed

theorem heavy_script_only_witness:
  "\<exists>reps w' rep r. main host0 [''heavyScript''] False 1 world0 = (Fulfilled reps, w')
     \<and> reps = [rep] \<and> benchmarks rep = [(''heavyScript'', r)]
     \<and> amountOfProcessedItems r = Absent \<and> exitCode r = Absent"
proof -
  note t = heavy_script_only [of host0 False world0]
  from t [THEN conjunct1] calm_host0 obtain reps w' where
    m: "main host0 [''heavyScript''] False 1 world0 = (Fulfilled reps, w')"
    by blast
  from heavy_script_only [of host0 False world0 reps w', THEN conjunct2] m
  obtain rep r where "reps = [rep]" "benchmarks rep = [(''heavyScript'', r)]"
    "amountOfProcessedItems r = Absent" "exitCode r = Absent"
    by blast
  with m show ?thesis by blast
qed

section \<open>The primes of the heavy computation\<close>

lemma wheel_step:
  fixes i n :: nat
  assumes i5: "i mod 6 = 5"
    and inv: "\<forall>d. 2 \<le> d \<and> d < i \<longrightarrow> \<not> d dvd n"
    and ni: "n mod i \<noteq> 0" and ni2: "n mod (i + 2) \<noteq> 0"
  shows "\<forall>d. 2 \<le> d \<and> d < i + 6 \<longrightarrow> \<not> d dvd n"
proof (intro allI impI)
  fix d assume d: "2 \<le> d \<and> d < i + 6"
  have i_ge: "5 \<le> i" using i5 by (metis mod_less_eq_dividend)
  have "2 \<le> (2::nat) \<and> 2 < i" "2 \<le> (3::nat) \<and> 3 < i" using i_ge by simp_all
  with inv have n2: "\<not> 2 dvd n" and n3: "\<not> 3 dvd n" by blast+
  consider "d < i" | "d = i" | "d = i + 1" | "d = i + 2" | "d = i + 3" | "d = i + 4" | "d = i + 5"
    using d by linarith
  then show "\<not> d dvd n"
  proof cases
    case 1 then show ?thesis using inv d by blast
  next
    case 2 then show ?thesis using ni by (simp add: dvd_eq_mod_eq_0)
  next
    case 3
    have "2 dvd d" unfolding 3 using i5 by presburger
    then show ?thesis using n2 dvd_trans by blast
  next
    case 4 then show ?thesis using ni2 by (simp add: dvd_eq_mod_eq_0)
  next
    case 5
    have "2 dvd d" unfolding 5 using i5 by presburger
    then show ?thesis using n2 dvd_trans by blast
  next
    case 6
    have "3 dvd d" unfolding 6 using i5 by presburger
    then show ?thesis using n3 dvd_trans by blast
  next
    case 7
    have "2 dvd d" unfolding 7 using i5 by presburger
    then show ?thesis using n2 dvd_trans by blast
  qed
qed

lemma no_small_divisor_prime:
  fixes i n :: nat
  assumes inv: "\<forall>d. 2 \<le> d \<and> d < i \<longrightarrow> \<not> d dvd n"
    and big: "n < i * i" and n1: "1 < n"
  shows "is_prime_number n"
  unfolding is_prime_number_def
proof (intro conjI allI impI)
  show "1 < n" by fact
next
  fix d assume dv: "d dvd n"
  show "d = 1 \<or> d = n"
  proof (rule ccontr)
    assume neg: "\<not> (d = 1 \<or> d = n)"
    from dv obtain k where k: "n = d * k" by (auto simp: dvd_def)
    have d0: "d \<noteq> 0" "k \<noteq> 0" using k n1 by (auto intro: ccontr)
    have k1: "k \<noteq> 1" using k neg by auto
    have d2: "2 \<le> d" using d0 neg by linarith
    have k2: "2 \<le> k" using d0 k1 by linarith
    have "k dvd n" using k by simp
    then have ki: "i \<le> k" using inv k2 by (meson not_less)
    have di: "i \<le> d" using inv d2 dv by (meson not_less)
    have "i * i \<le> d * k" using ki di by (rule_tac mult_le_mono)
    then show False using big k by simp
  qed
qed

lemma isPrime_loop_correct:
  "i mod 6 = 5 \<Longrightarrow> \<forall>d. 2 \<le> d \<and> d < i \<longrightarrow> \<not> d dvd n \<Longrightarrow> 1 < n
     \<Longrightarrow> isPrime_loop i n = is_prime_number n"
proof (induction i n rule: isPrime_loop.induct)
  case (1 i num)
  have i_ge: "5 \<le> i" using "1.prems"(1) by (metis mod_less_eq_dividend)
  show ?case
  proof (cases "i * i \<le> num")
    case False
    then have "is_prime_number num"
      using no_small_divisor_prime [of i num] "1.prems" by simp
    then show ?thesis using False by (subst isPrime_loop.simps) simp
  next
    case True
    have "5 * i \<le> i * i" using i_ge by simp
    then have lt: "i + 2 < i * i" using i_ge by linarith
    show ?thesis
    proof (cases "num mod i = 0 \<or> num mod (i + 2) = 0")
      case div: True
      then have "\<exists>d. d dvd num \<and> d \<noteq> 1 \<and> d \<noteq> num"
      proof
        assume "num mod i = 0"
        then have "i dvd num" by (simp add: dvd_eq_mod_eq_0)
        moreover have "i \<noteq> 1" "i \<noteq> num" using i_ge lt True by linarith+
        ultimately show ?thesis by blast
      next
        assume "num mod (i + 2) = 0"
        then have "(i + 2) dvd num" by (simp add: dvd_eq_mod_eq_0)
        moreover have "i + 2 \<noteq> 1" "i + 2 \<noteq> num" using i_ge lt True by linarith+
        ultimately show ?thesis by blast
      qed
      then obtain d where d: "d dvd num" "d \<noteq> 1" "d \<noteq> num" by blast
      then have "\<not> is_prime_number num" by (auto simp: is_prime_number_def)
      then show ?thesis using True div by (subst isPrime_loop.simps) simp
    next
      case nodiv: False
      have inv': "\<forall>d. 2 \<le> d \<and> d < i + 6 \<longrightarrow> \<not> d dvd num"
        using wheel_step [OF "1.prems"(1) "1.prems"(2)] nodiv by blast
      have m: "(i + 6) mod 6 = 5" using "1.prems"(1) by presburger
      have "isPrime_loop (i + 6) num = is_prime_number num"
        using "1.IH" [OF True _ m inv' "1.prems"(3)] nodiv by blast
      then show ?thesis using True nodiv by (subst isPrime_loop.simps) simp
    qed
  qed
qed


lemma isPrime_is_prime_number: "isPrime n = is_prime_number n"
proof -
  consider "n \<le> 1" | "n = 2 \<or> n = 3" | "3 < n" "n mod 2 = 0 \<or> n mod 3 = 0"
    | "3 < n" "n mod 2 \<noteq> 0" "n mod 3 \<noteq> 0"
    by linarith
  then show ?thesis
  proof cases
    case 1
    then show ?thesis by (auto simp: isPrime_def is_prime_number_def)
  next
    case 2
    have "\<forall>d::nat. 2 \<le> d \<and> d < 2 \<longrightarrow> \<not> d dvd n" by auto
    then have "is_prime_number n"
      using 2 by (intro no_small_divisor_prime [of 2 n]) auto
    then show ?thesis using 2 by (auto simp: isPrime_def)
  next
    case 3
    from 3(2) have "\<exists>d. d dvd n \<and> d \<noteq> 1 \<and> d \<noteq> n"
    proof
      assume "n mod 2 = 0"
      then have "2 dvd n" by (simp add: dvd_eq_mod_eq_0)
      then show ?thesis using 3(1) by (intro exI [of _ 2]) simp
    next
      assume "n mod 3 = 0"
      then have "3 dvd n" by (simp add: dvd_eq_mod_eq_0)
      then show ?thesis using 3(1) by (intro exI [of _ 3]) simp
    qed
    then have "\<not> is_prime_number n" by (auto simp: is_prime_number_def)
    then show ?thesis using 3 by (auto simp: isPrime_def)
  next
    case 4
    have n2: "\<not> 2 dvd n" and n3: "\<not> 3 dvd n"
      using 4 by (simp_all add: dvd_eq_mod_eq_0)
    have inv: "\<forall>d. 2 \<le> d \<and> d < 5 \<longrightarrow> \<not> d dvd n"
    proof (intro allI impI)
      fix d :: nat assume "2 \<le> d \<and> d < 5"
      then consider "d = 2" | "d = 3" | "d = 4" by linarith
      then show "\<not> d dvd n"
      proof cases
        case 3
        have "(2::nat) dvd 4" by simp
        then show ?thesis using n2 3 dvd_trans by blast
      qed (use n2 n3 in simp_all)
    qed
    have "isPrime_loop 5 n = is_prime_number n"
      using isPrime_loop_correct [of 5 n] inv 4(1) by simp
    then show ?thesis using 4 by (simp add: isPrime_def)
  qed
qed

lemma findPrimes_loop_filter:
  "findPrimes_loop i mx primes = primes @ filter isPrime [i..<Suc mx]"
proof (induction i mx primes rule: findPrimes_loop.induct)
  case (1 i mx primes)
  show ?case
  proof (cases "i \<le> mx")
    case True
    then have "[i..<Suc mx] = i # [i + 1..<Suc mx]"
      by (simp add: upt_conv_Cons)
    then show ?thesis
      using True "1.IH" [OF True] by (subst findPrimes_loop.simps) simp
  next
    case False
    then show ?thesis by (subst findPrimes_loop.simps) simp
  qed
qed

lemma findPrimes_filter: "findPrimes mx = filter isPrime [2..<Suc mx]"
  by (simp add: findPrimes_def findPrimes_loop_filter)

text \<open>
  Claim C10. \<open>isPrime n\<close> is true exactly when the natural number \<open>n\<close> is prime, and
  \<open>findPrimes mx\<close> is the list of all primes up to and including \<open>mx\<close>, strictly
  increasing.
\<close>

theorem heavy_script_primes:
  "(isPrime n \<longleftrightarrow> is_prime_number n)
   \<and> set (findPrimes mx) = {p. is_prime_number p \<and> p \<le> mx}
   \<and> sorted_wrt (<) (findPrimes mx)"
proof (intro conjI)
  show "isPrime n \<longleftrightarrow> is_prime_number n" by (rule isPrime_is_prime_number)
  show "set (findPrimes mx) = {p. is_prime_number p \<and> p \<le> mx}"
    by (auto simp: findPrimes_filter isPrime_is_prime_number is_prime_number_def)
  show "sorted_wrt (<) (findPrimes mx)"
    unfolding findPrimes_filter
    by (rule sorted_wrt_filter) (rule sorted_wrt_upt)
qed

theorem heavy_script_primes_witness:
  "is_prime_number 97 \<and> \<not> is_prime_number 91 \<and> set (findPrimes 20) = {2, 3, 5, 7, 11, 13, 17, 19}"
proof -
  have a: "isPrime 97" by (simp add: isPrime_def isPrime_loop.simps)
  have b: "\<not> isPrime 91" by (simp add: isPrime_def isPrime_loop.simps)
  have c: "findPrimes 20 = [2, 3, 5, 7, 11, 13, 17, 19]"
    by (simp add: findPrimes_def findPrimes_loop.simps isPrime_def isPrime_loop.simps)
  show ?thesis
    using heavy_script_primes [of 97 20] heavy_script_primes [of 91 20] a b c by simp
qed

end
